theory Spec2Isabelle
  imports Complex_Main "HOL-Library.Sublist" "HOL-Library.Multiset"
begin

section \<open>Data model of main.js\<close>

text \<open>
  JavaScript numbers are modelled as reals (times, amplitudes) or integers (score,
  combo, indices). In the hit logic, where the class of a press depends on which side
  of a threshold a computed difference falls, every subtraction is rounded to the
  nearest double and the thresholds are the doubles that the literals denote; in the
  analysis, in note generation and in the sum that sets \<open>startTime\<close> the arithmetic
  is exact. NaN and overflow are
  outside the model. Where the source can produce an infinity by dividing by zero, or
  reads a property of \<open>null\<close>/\<open>undefined\<close>, the model has an explicit branch.

  The functions \<open>estimateBPMFromEnv\<close>, \<open>buildBeatGrid\<close>, \<open>freqToLane\<close> and
  \<open>computeSpectralFrames\<close> are called by main.js but not defined in it; the first
  three are parameters of the handlers that call them, the last one only fills
  \<open>freqDataOverTime\<close>, which nothing but \<open>freqToLane\<close> could read.
\<close>

datatype error = NotLoaded | TypeError

text \<open>A generated note: \<open>{time: seconds, lane: 0..3}\<close>.\<close>

record game_note =
  time :: real
  lane :: nat

text \<open>
  What main.js reads of the decoded \<open>audioBuffer\<close>: \<open>getChannelData(0)\<close>,
  \<open>sampleRate\<close> (positive for every buffer the Web Audio API returns) and \<open>duration\<close>.
\<close>

record audio_buffer =
  channelData0 :: "real list"
  buf_sampleRate :: real
  buf_duration :: real

text \<open>
  The module-level \<open>let\<close> variables (\<open>notes\<close> is \<open>notes_arr\<close> here). \<open>audioBuffer\<close>
  is \<open>None\<close> while undefined, \<open>bpmEstimate\<close> is \<open>None\<close> while \<open>null\<close> (or NaN),
  \<open>energyEnv\<close> is \<open>None\<close> while \<open>null\<close>; \<open>audioCtx\<close> records whether the audio
  context exists.
\<close>

record globals =
  audioCtx :: bool
  audioBuffer :: "audio_buffer option"
  sampleRate :: real
  onsets :: "real list"
  bpmEstimate :: "real option"
  energyEnv :: "real list option"
  notes_arr :: "game_note list"
  startTime :: real
  playing :: bool
  pressed :: "bool list"
  score :: int
  combo :: int
  idxNextNote :: nat

definition initial :: globals where
  "initial = \<lparr> audioCtx = False, audioBuffer = None, sampleRate = 44100, onsets = [],
     bpmEstimate = None, energyEnv = None, notes_arr = [], startTime = 0, playing = False,
     pressed = [False, False, False, False], score = 0, combo = 0, idxNextNote = 0 \<rparr>"

text \<open>The \<open>change\<close> handler of the file input, once the file is decoded.\<close>

definition load :: "audio_buffer \<Rightarrow> globals \<Rightarrow> globals" where
  "load ab st = st\<lparr>audioCtx := True, audioBuffer := Some ab, sampleRate := buf_sampleRate ab\<rparr>"

section \<open>Analysis: energy envelope and onsets (\<open>analyzeBtn\<close>)\<close>

definition win :: nat where "win = 1024"
definition step :: nat where "step = 512"

text \<open>
  The inner loop \<open>for(let j=0;j<win;j++){ const s = raw[i+j]; sum += s*s; }\<close>.
\<close>

definition window_sum :: "real list \<Rightarrow> nat \<Rightarrow> real" where
  "window_sum raw i = fold (\<lambda>j sum. sum + raw ! (i + j) * raw ! (i + j)) [0..<win] 0"

text \<open>
  The outer loop \<open>for(let i=0;i<raw.length-win;i+=step)\<close>; \<open>raw.length-win\<close> can be
  negative, so the comparison is on integers.
\<close>

function env_loop :: "real list \<Rightarrow> nat \<Rightarrow> real list \<Rightarrow> real list" where
  "env_loop raw i env =
     (if int i < int (length raw) - int win
      then env_loop raw (i + step) (env @ [sqrt (window_sum raw i / real win)])
      else env)"
  by pat_completeness auto
termination
  by (relation "measure (\<lambda>(raw, i, env). length raw - i)") (auto simp: step_def)

declare env_loop.simps [simp del]

definition computeEnv :: "real list \<Rightarrow> real list" where
  "computeEnv raw = env_loop raw 0 []"

text \<open>\<open>for(let i=1;i<env.length;i++) diffs.push(Math.max(0, env[i]-env[i-1]))\<close>.\<close>

definition computeDiffs :: "real list \<Rightarrow> real list" where
  "computeDiffs env = map (\<lambda>i. max 0 (env ! i - env ! (i - 1))) [1..<length env]"

text \<open>\<open>Math.max(...diffs)\<close>: \<open>-Infinity\<close> (here \<open>None\<close>) for the empty array.\<close>

definition js_max :: "real list \<Rightarrow> real option" where
  "js_max ds = fold (\<lambda>d m. case m of None \<Rightarrow> Some d | Some x \<Rightarrow> Some (max x d)) ds None"

text \<open>
  \<open>diffs.map(d=>d / (maxd||1))\<close>: \<open>maxd||1\<close> is 1 when \<open>maxd\<close> is 0, and a finite
  \<open>d\<close> divided by \<open>-Infinity\<close> is a zero.
\<close>

definition normalize :: "real list \<Rightarrow> real list" where
  "normalize ds =
     map (\<lambda>d. case js_max ds of None \<Rightarrow> 0 | Some maxd \<Rightarrow> d / (if maxd = 0 then 1 else maxd)) ds"

text \<open>
  \<open>parseFloat(sensitivitySlider.value) || 1.5\<close>; the parsed value is \<open>None\<close> when
  it is NaN.
\<close>

definition sens_of :: "real option \<Rightarrow> real" where
  "sens_of v = (case v of None \<Rightarrow> 1.5 | Some k \<Rightarrow> if k = 0 then 1.5 else k)"

definition thresh_of :: "real option \<Rightarrow> real" where
  "thresh_of v = 0.18 / sens_of v"

text \<open>\<open>((i+1)*step)/sampleRate\<close>.\<close>

definition frame_sec :: "real \<Rightarrow> nat \<Rightarrow> real" where
  "frame_sec sr i = real ((i + 1) * step) / sr"

text \<open>The loop \<open>for(let i=0;i<norm.length;i++)\<close> that fills \<open>onsets\<close>.\<close>

function onset_loop :: "real list \<Rightarrow> real \<Rightarrow> real \<Rightarrow> nat \<Rightarrow> real list \<Rightarrow> real list" where
  "onset_loop norm_arr thresh sr i ons =
     (if i < length norm_arr then
        (if norm_arr ! i > thresh then
           (if ons = [] \<or> frame_sec sr i - last ons > 0.12
            then onset_loop norm_arr thresh sr (i + 1) (ons @ [frame_sec sr i])
            else onset_loop norm_arr thresh sr (i + 1) ons)
         else onset_loop norm_arr thresh sr (i + 1) ons)
      else ons)"
  by pat_completeness auto
termination
  by (relation "measure (\<lambda>(norm_arr, thresh, sr, i, ons). length norm_arr - i)") auto

declare onset_loop.simps [simp del]

definition detect_onsets :: "real list \<Rightarrow> real option \<Rightarrow> real \<Rightarrow> real list" where
  "detect_onsets env sensitivity sr =
     onset_loop (normalize (computeDiffs env)) (thresh_of sensitivity) sr 0 []"

text \<open>
  The \<open>click\<close> handler of \<open>analyzeBtn\<close>. \<open>sensitivity\<close> is the parsed slider value,
  \<open>estimateBPMFromEnv\<close> the function of that name (\<open>None\<close> for a falsy result).
\<close>

definition analyze ::
  "(real list \<Rightarrow> real \<Rightarrow> nat \<Rightarrow> real option) \<Rightarrow> real option \<Rightarrow> globals \<Rightarrow> error + globals" where
  "analyze estimateBPMFromEnv sensitivity st =
     (case audioBuffer st of
        None \<Rightarrow> Inl NotLoaded
      | Some ab \<Rightarrow>
          Inr (st\<lparr>audioCtx := True,
                  energyEnv := Some (computeEnv (channelData0 ab)),
                  onsets := detect_onsets (computeEnv (channelData0 ab)) sensitivity (sampleRate st),
                  bpmEstimate := estimateBPMFromEnv (computeEnv (channelData0 ab)) (sampleRate st) step\<rparr>))"

section \<open>Note generation (\<open>genNotesBtn\<close>)\<close>

text \<open>\<open>bpmEstimate || 120\<close>.\<close>

definition bpm_or_default :: "real option \<Rightarrow> real" where
  "bpm_or_default e = (case e of None \<Rightarrow> 120 | Some b \<Rightarrow> if b = 0 then 120 else b)"

text \<open>
  \<open>(60/(bpmEstimate||120)) / (subdiv/4) / 2\<close>, where \<open>subdiv\<close> is the integer that
  \<open>parseInt\<close> returns and \<open>bpm\<close> is the nonzero number that \<open>bpmEstimate||120\<close>
  yields. Dividing by \<open>subdiv/4 = 0\<close> gives an infinity with the sign of the
  dividend.
\<close>

datatype jsnum = Num real | PosInf | NegInf

definition snapWindow_of :: "real \<Rightarrow> int \<Rightarrow> jsnum" where
  "snapWindow_of bpm subdiv =
     (if subdiv = 0 then (if 0 < 60 / bpm then PosInf else NegInf)
      else Num ((60 / bpm) / (real_of_int subdiv / 4) / 2))"

text \<open>\<open>mind > snapWindow\<close>.\<close>

fun exceeds :: "real \<Rightarrow> jsnum \<Rightarrow> bool" where
  "exceeds m (Num w) = (m > w)"
| "exceeds m PosInf = False"
| "exceeds m NegInf = True"

text \<open>
  \<open>let nearest = null; let mind = 999; for(const g of grid){ ... }\<close>: the pair
  \<open>(nearest, mind)\<close> after the loop.
\<close>

definition nearest_scan :: "real list \<Rightarrow> real \<Rightarrow> real option \<times> real" where
  "nearest_scan grid t =
     fold (\<lambda>g (nearest, mind). if \<bar>g - t\<bar> < mind then (Some g, \<bar>g - t\<bar>) else (nearest, mind))
       grid (None, 999)"

text \<open>
  The loop \<open>for(const t of onsets)\<close>; a candidate is \<open>{time: nearest, lane}\<close>, whose
  time is still \<open>null\<close> when no grid time was nearer than 999.
\<close>

fun cand_loop ::
  "(real \<Rightarrow> nat) \<Rightarrow> real list \<Rightarrow> jsnum \<Rightarrow> real list \<Rightarrow> (real option \<times> nat) list \<Rightarrow> (real option \<times> nat) list" where
  "cand_loop freqToLane grid sw [] candidates = candidates"
| "cand_loop freqToLane grid sw (t # ts) candidates =
     (if exceeds (snd (nearest_scan grid t)) sw then cand_loop freqToLane grid sw ts candidates
      else cand_loop freqToLane grid sw ts
             (candidates @ [(fst (nearest_scan grid t), freqToLane t)]))"

text \<open>
  \<open>c.time.toFixed(3)\<close> for \<open>\<bar>time\<bar> < 10^21\<close>: an optional minus sign and the
  integer \<open>n\<close> nearest to \<open>\<bar>time\<bar> * 1000\<close> (the larger one of two), printed with
  three decimals. The string is determined by, and determines, the pair below.
\<close>

definition toFixed3 :: "real \<Rightarrow> bool \<times> int" where
  "toFixed3 x = (x < 0, \<lfloor>\<bar>x\<bar> * 1000 + 1 / 2\<rfloor>)"

text \<open>The key \<open>`${c.time.toFixed(3)}|${c.lane}`\<close>.\<close>

type_synonym key = "(bool \<times> int) \<times> nat"

definition key_of :: "game_note \<Rightarrow> key" where
  "key_of c = (toFixed3 (time c), lane c)"

text \<open>
  \<open>merged[key] = c\<close> on an object whose keys are not array indices: a new key goes
  last, an old key keeps its place and gets the new value.
\<close>

fun obj_set :: "'k \<Rightarrow> 'v \<Rightarrow> ('k \<times> 'v) list \<Rightarrow> ('k \<times> 'v) list" where
  "obj_set k v [] = [(k, v)]"
| "obj_set k v ((k', v') # al) = (if k' = k then (k, v) # al else (k', v') # obj_set k v al)"

text \<open>The loop \<open>for(const c of candidates)\<close>; \<open>null.toFixed\<close> throws.\<close>

fun merge_loop ::
  "(real option \<times> nat) list \<Rightarrow> (key \<times> game_note) list \<Rightarrow> error + (key \<times> game_note) list" where
  "merge_loop [] merged = Inr merged"
| "merge_loop ((None, l) # cs) merged = Inl TypeError"
| "merge_loop ((Some t, l) # cs) merged =
     merge_loop cs (obj_set (key_of \<lparr>time = t, lane = l\<rparr>) \<lparr>time = t, lane = l\<rparr> merged)"

text \<open>
  \<open>Object.values(merged).sort((a,b)=>a.time-b.time)\<close>; \<open>Array.prototype.sort\<close> is
  stable, as \<open>sort_key\<close> is.
\<close>

definition sort_notes :: "(key \<times> game_note) list \<Rightarrow> game_note list" where
  "sort_notes merged = sort_key time (map snd merged)"

text \<open>The candidates of the handler, before merging.\<close>

definition gen_candidates ::
  "(real \<Rightarrow> int \<Rightarrow> real \<Rightarrow> real list) \<Rightarrow> (real \<Rightarrow> nat) \<Rightarrow> int \<Rightarrow> audio_buffer \<Rightarrow> globals \<Rightarrow>
     (real option \<times> nat) list" where
  "gen_candidates buildBeatGrid freqToLane subdiv ab st =
     cand_loop freqToLane
       (buildBeatGrid (bpm_or_default (bpmEstimate st)) subdiv (buf_duration ab))
       (snapWindow_of (bpm_or_default (bpmEstimate st)) subdiv)
       (onsets st) []"

text \<open>
  The \<open>click\<close> handler of \<open>genNotesBtn\<close>. \<open>buildBeatGrid\<close> and \<open>freqToLane\<close> are the
  functions of those names, \<open>subdiv\<close> is \<open>parseInt(subdivSelect.value)\<close>.
\<close>

definition genNotes ::
  "(real \<Rightarrow> int \<Rightarrow> real \<Rightarrow> real list) \<Rightarrow> (real \<Rightarrow> nat) \<Rightarrow> int \<Rightarrow> globals \<Rightarrow> error + globals" where
  "genNotes buildBeatGrid freqToLane subdiv st =
     (case audioBuffer st of
        None \<Rightarrow> Inl NotLoaded
      | Some ab \<Rightarrow>
          (case merge_loop (gen_candidates buildBeatGrid freqToLane subdiv ab st) [] of
             Inl e \<Rightarrow> Inl e
           | Inr merged \<Rightarrow> Inr (st\<lparr>notes_arr := sort_notes merged\<rparr>)))"

section \<open>Play and stop\<close>

text \<open>
  The \<open>click\<close> handlers of \<open>startBtn\<close> and \<open>stopBtn\<close>; \<open>currentTime\<close> is
  \<open>audioCtx.currentTime\<close>. Starting and stopping the audio source is not modelled.
\<close>

definition start :: "real \<Rightarrow> globals \<Rightarrow> error + globals" where
  "start currentTime st =
     (case audioBuffer st of
        None \<Rightarrow> Inl NotLoaded
      | Some ab \<Rightarrow>
          Inr (st\<lparr>audioCtx := True, startTime := currentTime + 0.15, playing := True,
                  score := 0, combo := 0, idxNextNote := 0\<rparr>))"

definition stop :: "globals \<Rightarrow> globals" where
  "stop st = st\<lparr>playing := False\<rparr>"

section \<open>Double arithmetic\<close>

text \<open>
  Rounding a real to the nearest IEEE 754 binary64 number, ties to the even
  significand, as every arithmetic operation and every decimal literal of JavaScript
  does: the result is the nearest integer multiple of the unit in the last place,
  which is \<open>2 ^ (e - 52)\<close> for \<open>2 ^ e \<le> \<bar>x\<bar> < 2 ^ (e + 1)\<close> and \<open>2 ^ - 1074\<close> for the
  subnormal numbers. Overflow to an infinity (\<open>\<bar>x\<bar> \<ge> 2 ^ 1024\<close>) is not modelled.
\<close>

definition round_even :: "real \<Rightarrow> int" where
  "round_even y =
     (if y - of_int \<lfloor>y\<rfloor> < 1 / 2 then \<lfloor>y\<rfloor>
      else if y - of_int \<lfloor>y\<rfloor> > 1 / 2 then \<lfloor>y\<rfloor> + 1
      else if even \<lfloor>y\<rfloor> then \<lfloor>y\<rfloor> else \<lfloor>y\<rfloor> + 1)"

definition ulp_exp :: "real \<Rightarrow> int" where
  "ulp_exp x = max (\<lfloor>log 2 \<bar>x\<bar>\<rfloor> - 52) (- 1074)"

definition ulp :: "real \<Rightarrow> real" where
  "ulp x = 2 powr of_int (ulp_exp x)"

definition fl :: "real \<Rightarrow> real" where
  "fl x = (if x = 0 then 0 else of_int (round_even (x / ulp x)) * ulp x)"

section \<open>Hit logic (\<open>handleHit\<close>)\<close>

text \<open>The doubles that the literals \<open>0.08\<close>, \<open>0.18\<close> and \<open>0.30\<close> denote.\<close>

definition perfect :: real where "perfect = fl 0.08"
definition good :: real where "good = fl 0.18"
definition missWindow :: real where "missWindow = fl 0.30"

text \<open>
  The branch of \<open>handleHit\<close> that was taken. The source returns nothing; the names are
  those of its comments (\<open>// perfect\<close>, \<open>// too late/early\<close>).
\<close>

datatype hit_result = Perfect | Good | Miss

text \<open>
  The search loop \<open>for(let i=idxNextNote;i<notes.length;i++)\<close>, with its
  \<open>continue\<close> and its \<open>break\<close>. \<open>bestIdx = -1\<close> is \<open>None\<close>; \<open>n.time - now\<close> is a
  double subtraction, \<open>Math.abs\<close> is exact.
\<close>

function scan :: "game_note list \<Rightarrow> nat \<Rightarrow> real \<Rightarrow> nat \<Rightarrow> nat option \<times> real \<Rightarrow> nat option \<times> real" where
  "scan ns l now i (bestIdx, bestDiff) =
      (if i < length ns then
         (if lane (ns ! i) \<noteq> l then scan ns l now (i + 1) (bestIdx, bestDiff)
          else
            (if fl (time (ns ! i) - now) > missWindow
             then (if \<bar>fl (time (ns ! i) - now)\<bar> < bestDiff
                   then (Some i, \<bar>fl (time (ns ! i) - now)\<bar>) else (bestIdx, bestDiff))
             else scan ns l now (i + 1)
                    (if \<bar>fl (time (ns ! i) - now)\<bar> < bestDiff
                     then (Some i, \<bar>fl (time (ns ! i) - now)\<bar>) else (bestIdx, bestDiff))))
       else (bestIdx, bestDiff))"
  by pat_completeness auto
termination
  by (relation "measure (\<lambda>(ns, l, now, i, b). length ns - i)") auto

declare scan.simps [simp del]

text \<open>\<open>notes.splice(bestIdx, 1)\<close>.\<close>

definition splice1 :: "nat \<Rightarrow> 'a list \<Rightarrow> 'a list" where
  "splice1 i xs = take i xs @ drop (Suc i) xs"

text \<open>The body of \<open>handleHit\<close> once \<open>now\<close> has been read from the clock.\<close>

definition judge :: "real \<Rightarrow> nat \<Rightarrow> globals \<Rightarrow> hit_result \<times> globals" where
  "judge now l st =
     (case fst (scan (notes_arr st) l now (idxNextNote st) (None, 999)) of
        None \<Rightarrow> (Miss, st\<lparr>combo := 0\<rparr>)
      | Some bestIdx \<Rightarrow>
          (if \<bar>fl (time (notes_arr st ! bestIdx) - now)\<bar> \<le> perfect then
             (Perfect, st\<lparr>score := score st + 1000, combo := combo st + 1,
                         notes_arr := splice1 bestIdx (notes_arr st)\<rparr>)
           else if \<bar>fl (time (notes_arr st ! bestIdx) - now)\<bar> \<le> good then
             (Good, st\<lparr>score := score st + 500, combo := combo st + 1,
                      notes_arr := splice1 bestIdx (notes_arr st)\<rparr>)
           else (Miss, st\<lparr>combo := 0\<rparr>)))"

text \<open>
  \<open>handleHit(lane)\<close>. \<open>currentTime\<close> is the value of \<open>audioCtx.currentTime\<close> when the
  key goes down; reading it throws when no audio context has been created yet.
  \<open>now\<close> is the double \<open>audioCtx.currentTime - startTime\<close>.
\<close>

definition handleHit :: "real \<Rightarrow> nat \<Rightarrow> globals \<Rightarrow> error + hit_result \<times> globals" where
  "handleHit currentTime l st =
     (if \<not> audioCtx st then Inl TypeError
      else Inr (judge (fl (currentTime - startTime st)) l st))"

section \<open>Key handling\<close>

text \<open>\<open>keyMap\<close>, applied to \<open>e.key.toLowerCase()\<close>.\<close>

definition keyMap :: "string \<Rightarrow> nat option" where
  "keyMap k =
     (if k = ''f'' then Some 0 else if k = ''g'' then Some 1
      else if k = ''h'' then Some 2 else if k = ''j'' then Some 3 else None)"

definition keydown :: "real \<Rightarrow> string \<Rightarrow> globals \<Rightarrow> error + globals" where
  "keydown currentTime k st =
     (case keyMap k of
        None \<Rightarrow> Inr st
      | Some l \<Rightarrow>
          (if \<not> pressed st ! l then
             (case handleHit currentTime l st of
                Inl e \<Rightarrow> Inl e
              | Inr (r, st') \<Rightarrow> Inr (st'\<lparr>pressed := (pressed st')[l := True]\<rparr>))
           else Inr (st\<lparr>pressed := (pressed st)[l := True]\<rparr>)))"

definition keyup :: "string \<Rightarrow> globals \<Rightarrow> globals" where
  "keyup k st =
     (case keyMap k of None \<Rightarrow> st | Some l \<Rightarrow> st\<lparr>pressed := (pressed st)[l := False]\<rparr>)"

section \<open>Sessions: sequences of events\<close>

text \<open>
  The events main.js listens to, with what each handler reads from outside the
  module. A handler that throws or returns early leaves the module variables as
  they were.
\<close>

datatype event =
    Load audio_buffer
  | Analyze "real option"
  | GenNotes int
  | Start real
  | Stop
  | KeyDown real string
  | KeyUp string

record externals =
  estimateBPMFromEnv :: "real list \<Rightarrow> real \<Rightarrow> nat \<Rightarrow> real option"
  buildBeatGrid :: "real \<Rightarrow> int \<Rightarrow> real \<Rightarrow> real list"
  freqToLane :: "real \<Rightarrow> nat"

definition or_unchanged :: "globals \<Rightarrow> error + globals \<Rightarrow> globals" where
  "or_unchanged st r = (case r of Inl e \<Rightarrow> st | Inr st' \<Rightarrow> st')"

fun handle :: "externals \<Rightarrow> event \<Rightarrow> globals \<Rightarrow> globals" where
  "handle ext (Load ab) st = load ab st"
| "handle ext (Analyze sensitivity) st =
     or_unchanged st (analyze (estimateBPMFromEnv ext) sensitivity st)"
| "handle ext (GenNotes subdiv) st =
     or_unchanged st (genNotes (buildBeatGrid ext) (freqToLane ext) subdiv st)"
| "handle ext (Start currentTime) st = or_unchanged st (start currentTime st)"
| "handle ext Stop st = stop st"
| "handle ext (KeyDown currentTime k) st = or_unchanged st (keydown currentTime k st)"
| "handle ext (KeyUp k) st = keyup k st"

definition run :: "externals \<Rightarrow> event list \<Rightarrow> globals \<Rightarrow> globals" where
  "run ext es st = fold (handle ext) es st"

section \<open>Notions used to state the properties\<close>

text \<open>
  Index \<open>j\<close> is a note of lane \<open>l\<close> at or after the cursor \<open>i\<close>; its distance to
  \<open>now\<close> as the code computes it, \<open>Math.abs(n.time - now)\<close>; and \<open>b\<close> is the best
  candidate: a nearest such note, the earliest of them.
\<close>

definition cand :: "game_note list \<Rightarrow> nat \<Rightarrow> nat \<Rightarrow> nat \<Rightarrow> bool" where
  "cand ns l i j \<longleftrightarrow> i \<le> j \<and> j < length ns \<and> lane (ns ! j) = l"

definition tdiff :: "game_note list \<Rightarrow> real \<Rightarrow> nat \<Rightarrow> real" where
  "tdiff ns now j = \<bar>fl (time (ns ! j) - now)\<bar>"

definition first_best :: "game_note list \<Rightarrow> nat \<Rightarrow> real \<Rightarrow> nat \<Rightarrow> nat \<Rightarrow> bool" where
  "first_best ns l now i b \<longleftrightarrow>
     cand ns l i b \<and>
     (\<forall>j. cand ns l i j \<longrightarrow>
        tdiff ns now b \<le> tdiff ns now j \<and> (j < b \<longrightarrow> tdiff ns now b < tdiff ns now j))"

section \<open>A press on a single note\<close>

text \<open>
  An audio context, \<open>startTime = s\<close>, combo 5 and a chart of one note of lane 0 at
  time \<open>t\<close>.
\<close>

definition press_chart :: "real \<Rightarrow> real \<Rightarrow> globals" where
  "press_chart s t = initial\<lparr>audioCtx := True, startTime := s, combo := 5,
     notes_arr := [\<lparr>time = t, lane = 0\<rparr>]\<rparr>"

section \<open>A one-note chart\<close>

text \<open>
  A loaded track whose chart is a single note of lane 0 at 1 s, and stand-ins for the
  three functions main.js does not define.
\<close>

definition one_note_chart :: globals where
  "one_note_chart = initial\<lparr>audioCtx := True,
     audioBuffer := Some \<lparr>channelData0 = [], buf_sampleRate = 44100, buf_duration = 2\<rparr>,
     notes_arr := [\<lparr>time = 1, lane = 0\<rparr>]\<rparr>"

definition no_externals :: externals where
  "no_externals = \<lparr>estimateBPMFromEnv = (\<lambda>env sr st. None), buildBeatGrid = (\<lambda>bpm subdiv dur. []),
     freqToLane = (\<lambda>t. 0)\<rparr>"

text \<open>Exactly one of \<open>score\<close> and \<open>combo\<close> differs between two states.\<close>

definition exactly_one_updates :: "globals \<Rightarrow> globals \<Rightarrow> bool" where
  "exactly_one_updates st st' \<longleftrightarrow> (score st' \<noteq> score st) \<noteq> (combo st' \<noteq> combo st)"

section \<open>Notions for the envelope, the onsets and the chart\<close>

text \<open>
  The number of frames of a buffer of \<open>n\<close> samples, in closed form; the number of
  frames left when the window loop is at sample \<open>i\<close>; and the length that the
  envelope is documented to have, \<open>floor((n - window) / step)\<close>.
\<close>

definition frame_count :: "nat \<Rightarrow> nat" where
  "frame_count n = (if win < n then (n - win + step - 1) div step else 0)"

definition claimed_env_length :: "nat \<Rightarrow> int" where
  "claimed_env_length n = \<lfloor>(real n - real win) / real step\<rfloor>"

definition frames_from :: "nat \<Rightarrow> nat \<Rightarrow> nat" where
  "frames_from n i = (if i + win < n then (n - win - i + step - 1) div step else 0)"

text \<open>
  The onset candidates from frame \<open>i\<close> on (the indices whose normalised flux is above
  the threshold), and the minimum-gap rule on their times in words: go through the
  candidates in order and keep one when nothing is kept yet or it is more than
  0.12 s after the last one kept.
\<close>

definition candidate_frames :: "real list \<Rightarrow> real \<Rightarrow> nat \<Rightarrow> nat list" where
  "candidate_frames nrm thresh i = filter (\<lambda>j. nrm ! j > thresh) [i..<length nrm]"

fun gap_filter :: "real list \<Rightarrow> real list \<Rightarrow> real list" where
  "gap_filter ons [] = ons"
| "gap_filter ons (c # cs) =
     (if ons = [] \<or> c - last ons > 0.12 then gap_filter (ons @ [c]) cs else gap_filter ons cs)"

text \<open>
  One run of the gap rule is ahead of another: it has kept at least as many onsets,
  and when it has kept equally many, its last one is not later.
\<close>

definition ahead :: "real list \<Rightarrow> real list \<Rightarrow> bool" where
  "ahead a b \<longleftrightarrow> length a \<le> length b \<and> (length a = length b \<and> a \<noteq> [] \<longrightarrow> last b \<le> last a)"

text \<open>
  Snapping in words: the grid time nearest to \<open>t\<close> by absolute difference (the
  first of them in grid order); an onset is dropped when the grid is empty or that
  time is more than the snap window away, and gives one candidate otherwise.
\<close>

definition nearest_grid :: "real list \<Rightarrow> real \<Rightarrow> real" where
  "nearest_grid grid t = arg_min_list (\<lambda>g. \<bar>g - t\<bar>) grid"

definition snap_spec :: "real list \<Rightarrow> real \<Rightarrow> (real \<Rightarrow> nat) \<Rightarrow> real \<Rightarrow> (real option \<times> nat) list" where
  "snap_spec grid w mapper t =
     (if grid = [] then []
      else if \<bar>nearest_grid grid t - t\<bar> > w then []
      else [(Some (nearest_grid grid t), mapper t)])"

text \<open>
  The merged object as the loop keeps it: no key twice, every value under its own
  key.
\<close>

definition keyed :: "(key \<times> game_note) list \<Rightarrow> bool" where
  "keyed al \<longleftrightarrow> distinct (map fst al) \<and> (\<forall>(k, v)\<in>set al. k = key_of v)"

text \<open>
  Well-formedness as documented for the chart: no \<open>(time, lane)\<close> twice, ascending
  time, and lanes ascending among equal times.
\<close>

definition chart_wf_claimed :: "game_note list \<Rightarrow> bool" where
  "chart_wf_claimed ns \<longleftrightarrow>
     distinct (map (\<lambda>n. (time n, lane n)) ns) \<and>
     sorted_wrt (\<lambda>a b. time a < time b \<or> (time a = time b \<and> lane a \<le> lane b)) ns"

section \<open>A track with three onsets\<close>

text \<open>
  A loaded track with three onsets and no tempo estimate, a grid of three beats and a
  lane mapper that separates the onsets before 0.5 s from the later ones.
\<close>

definition snap_state :: globals where
  "snap_state = initial\<lparr>audioCtx := True,
     audioBuffer := Some \<lparr>channelData0 = [], buf_sampleRate = 44100, buf_duration = 1\<rparr>,
     onsets := [0.4, 0.6, 0.8]\<rparr>"

definition snap_externals :: externals where
  "snap_externals = \<lparr>estimateBPMFromEnv = (\<lambda>env sr st. None),
     buildBeatGrid = (\<lambda>bpm subdiv dur. [0, 60 / bpm, 120 / bpm]),
     freqToLane = (\<lambda>t. if t < 0.5 then 3 else 1)\<rparr>"

section \<open>Rounding to doubles\<close>

lemma round_even_int: "round_even (of_int n) = n"
  by (simp add: round_even_def)

lemma round_even_bounds: "\<lfloor>y\<rfloor> \<le> round_even y" "round_even y \<le> \<lfloor>y\<rfloor> + 1"
  by (simp_all add: round_even_def)

lemma round_even_mono:
  assumes "x \<le> y"
  shows "round_even x \<le> round_even y"
proof (cases "\<lfloor>x\<rfloor> = \<lfloor>y\<rfloor>")
  case False
  with assms have "\<lfloor>x\<rfloor> < \<lfloor>y\<rfloor>" using floor_mono [OF assms] by simp
  then have "round_even x \<le> \<lfloor>y\<rfloor>" using round_even_bounds(2) [of x] by simp
  also have "\<dots> \<le> round_even y" by (rule round_even_bounds)
  finally show ?thesis .
next
  case True
  with assms have "x - of_int \<lfloor>x\<rfloor> \<le> y - of_int \<lfloor>y\<rfloor>" by simp
  with True show ?thesis by (auto simp: round_even_def)
qed

lemma ulp_pos: "0 < ulp x"
  by (simp add: ulp_def)

lemma round_even_le: "y \<le> of_int n \<Longrightarrow> round_even y \<le> n"
  using round_even_mono [of y "of_int n"] by (simp add: round_even_int)

lemma round_even_ge: "of_int n \<le> y \<Longrightarrow> n \<le> round_even y"
  using round_even_mono [of "of_int n" y] by (simp add: round_even_int)

lemma fl_nonpos:
  assumes "x \<le> 0"
  shows "fl x \<le> 0"
proof (cases "x = 0")
  case True
  then show ?thesis by (simp add: fl_def)
next
  case False
  have "x / ulp x \<le> of_int 0" using assms ulp_pos [of x] by (simp add: divide_nonpos_pos)
  then have "round_even (x / ulp x) \<le> 0" by (rule round_even_le)
  then have "of_int (round_even (x / ulp x)) * ulp x \<le> 0"
    using ulp_pos [of x] by (simp add: mult_le_0_iff)
  with False show ?thesis by (simp add: fl_def)
qed

lemma ulp_exp_mono:
  assumes "0 < x" "x \<le> y"
  shows "ulp_exp x \<le> ulp_exp y"
proof -
  have "log 2 \<bar>x\<bar> \<le> log 2 \<bar>y\<bar>" using assms by simp
  then have "\<lfloor>log 2 \<bar>x\<bar>\<rfloor> \<le> \<lfloor>log 2 \<bar>y\<bar>\<rfloor>" by (rule floor_mono)
  then show ?thesis by (simp add: ulp_exp_def)
qed

lemma pow2_floor_log:
  assumes "0 < x"
  shows "2 powr of_int \<lfloor>log 2 x\<rfloor> \<le> x" "x < 2 powr (of_int \<lfloor>log 2 x\<rfloor> + 1)"
  using floor_log_eq_powr_iff [of x 2 "\<lfloor>log 2 x\<rfloor>"] assms by simp_all

lemma fl_upper:
  assumes "0 < x"
  shows "fl x \<le> 2 ^ 53 * ulp x"
proof -
  let ?q = "ulp_exp x" and ?e = "\<lfloor>log 2 x\<rfloor>"
  have "?e - 52 \<le> ?q" using assms by (simp add: ulp_exp_def)
  then have "of_int ?e + 1 \<le> (of_int ?q + 53 :: real)" by linarith
  then have "(2::real) powr (of_int ?e + 1) \<le> 2 powr (of_int ?q + 53)" by simp
  with pow2_floor_log(2) [OF assms] have "x < 2 powr (of_int ?q + 53)" by linarith
  also have "\<dots> = 2 ^ 53 * ulp x" by (simp add: powr_add ulp_def)
  finally have "x / ulp x \<le> of_int (2 ^ 53)" using ulp_pos [of x] by (simp add: pos_divide_le_eq)
  then have "round_even (x / ulp x) \<le> 2 ^ 53" by (rule round_even_le)
  then have "real_of_int (round_even (x / ulp x)) \<le> real_of_int (2 ^ 53)" by (simp only: of_int_le_iff)
  then have "real_of_int (round_even (x / ulp x)) * ulp x \<le> real_of_int (2 ^ 53) * ulp x"
    using ulp_pos [of x] by (intro mult_right_mono) simp_all
  with assms show ?thesis by (simp add: fl_def)
qed

lemma fl_lower:
  assumes "0 < y" "- 1074 < ulp_exp y"
  shows "2 ^ 52 * ulp y \<le> fl y"
proof -
  let ?q = "ulp_exp y" and ?e = "\<lfloor>log 2 y\<rfloor>"
  have q: "?q = ?e - 52" using assms by (simp add: ulp_exp_def max_def split: if_splits)
  have "2 ^ 52 * ulp y = 2 powr (of_int ?q + 52)" by (simp add: powr_add ulp_def)
  also have "\<dots> = 2 powr of_int ?e" by (simp add: q)
  also have "\<dots> \<le> y" by (rule pow2_floor_log(1) [OF assms(1)])
  finally have "of_int (2 ^ 52) \<le> y / ulp y" using ulp_pos [of y] by (simp add: pos_le_divide_eq)
  then have "2 ^ 52 \<le> round_even (y / ulp y)" by (rule round_even_ge)
  then have "real_of_int (2 ^ 52) \<le> real_of_int (round_even (y / ulp y))" by (simp only: of_int_le_iff)
  then have "real_of_int (2 ^ 52) * ulp y \<le> real_of_int (round_even (y / ulp y)) * ulp y"
    using ulp_pos [of y] by (intro mult_right_mono) simp_all
  with assms show ?thesis by (simp add: fl_def)
qed

lemma fl_mono_pos:
  assumes "0 < x" "x \<le> y"
  shows "fl x \<le> fl y"
proof (cases "ulp_exp x = ulp_exp y")
  case True
  then have u: "ulp x = ulp y" by (simp add: ulp_def)
  have "x / ulp y \<le> y / ulp y" using assms ulp_pos [of y] by (simp add: divide_right_mono)
  then have "round_even (x / ulp y) \<le> round_even (y / ulp y)" by (rule round_even_mono)
  then have "real_of_int (round_even (x / ulp y)) \<le> real_of_int (round_even (y / ulp y))"
    by (simp only: of_int_le_iff)
  then have "real_of_int (round_even (x / ulp y)) * ulp y \<le> real_of_int (round_even (y / ulp y)) * ulp y"
    using ulp_pos [of y] by (intro mult_right_mono) simp_all
  with assms u show ?thesis by (simp add: fl_def)
next
  case False
  with ulp_exp_mono [OF assms] have lt: "ulp_exp x < ulp_exp y" by simp
  have y: "0 < y" using assms by simp
  have "- 1074 \<le> ulp_exp x" by (simp add: ulp_exp_def)
  with lt have "- 1074 < ulp_exp y" by simp
  note lo = fl_lower [OF y this]
  have "of_int (ulp_exp x) + 1 \<le> (of_int (ulp_exp y) :: real)" using lt by linarith
  then have "(2::real) powr (of_int (ulp_exp x) + 1) \<le> 2 powr of_int (ulp_exp y)" by simp
  then have "2 * ulp x \<le> ulp y"
    by (simp add: powr_add ulp_def)
  then have "2 ^ 53 * ulp x \<le> 2 ^ 52 * ulp y"
    by simp
  with fl_upper [OF assms(1)] lo show ?thesis by linarith
qed

lemma fl_binade:
  assumes "2 powr of_int e \<le> \<bar>x\<bar>" "\<bar>x\<bar> < 2 powr (of_int e + 1)" "- 1022 \<le> e"
  shows "fl x = of_int (round_even (x / 2 powr of_int (e - 52))) * 2 powr of_int (e - 52)"
proof -
  have "(0::real) < 2 powr of_int e" by simp
  with assms(1) have pos: "0 < \<bar>x\<bar>" by linarith
  then have "\<lfloor>log 2 \<bar>x\<bar>\<rfloor> = e"
    using floor_log_eq_powr_iff [of "\<bar>x\<bar>" 2 e] assms(1,2) by simp
  then have "ulp_exp x = e - 52" using assms(3) by (simp add: ulp_exp_def)
  with pos show ?thesis by (simp add: fl_def ulp_def)
qed

text \<open>The values of the thresholds and of two other doubles.\<close>

lemma perfect_val: "perfect = 5764607523034235 / 2 ^ 56"
  unfolding perfect_def
  by (subst fl_binade [where e = "- 4"]) (simp_all add: round_even_def powr_neg_numeral)

lemma good_val: "good = 3242591731706757 / 2 ^ 54"
  unfolding good_def
  by (subst fl_binade [where e = "- 3"]) (simp_all add: round_even_def powr_neg_numeral)

lemma missWindow_val: "missWindow = 5404319552844595 / 2 ^ 54"
  unfolding missWindow_def
  by (subst fl_binade [where e = "- 2"]) (simp_all add: round_even_def powr_neg_numeral)

lemma missWindow_pos: "0 < missWindow"
  by (simp add: missWindow_val)

lemma perfect_le_good: "perfect \<le> good"
  by (simp add: perfect_val good_val)

lemma fl_0: "fl 0 = 0"
  by (simp add: fl_def)

lemma fl_1: "fl 1 = 1"
  by (subst fl_binade [where e = 0]) (simp_all add: round_even_def powr_neg_numeral)

section \<open>The judgment of a key press\<close>

lemma sorted_time_mono:
  "sorted (map time ns) \<Longrightarrow> i \<le> j \<Longrightarrow> j < length ns \<Longrightarrow> time (ns ! i) \<le> time (ns ! j)"
  using sorted_nth_mono [of "map time ns" i j] by simp

lemma cand_skip: "lane (ns ! i) \<noteq> l \<Longrightarrow> cand ns l i j = cand ns l (i + 1) j"
  unfolding cand_def by (cases "j = i") auto

lemma cand_step: "cand ns l i j \<longleftrightarrow> (j = i \<and> cand ns l i i) \<or> cand ns l (i + 1) j"
  unfolding cand_def by (cases "j = i") auto

lemma cand_past: "\<not> i < length ns \<Longrightarrow> \<not> cand ns l i j"
  unfolding cand_def by auto

lemma cand_gt: "cand ns l (i + 1) j \<Longrightarrow> i < j"
  unfolding cand_def by auto

lemma first_best_skip: "lane (ns ! i) \<noteq> l \<Longrightarrow> first_best ns l now i b = first_best ns l now (i + 1) b"
  unfolding first_best_def by (simp add: cand_skip)

lemma first_best_here:
  assumes "cand ns l i i" "\<And>j. cand ns l (i + 1) j \<Longrightarrow> tdiff ns now i \<le> tdiff ns now j"
  shows "first_best ns l now i i"
  unfolding first_best_def
proof (intro conjI allI impI)
  show "cand ns l i i" by fact
next
  fix j assume "cand ns l i j"
  then show "tdiff ns now i \<le> tdiff ns now j" using assms(2) cand_step [of ns l i j] by auto
next
  fix j assume "cand ns l i j" "j < i"
  then show "tdiff ns now i < tdiff ns now j" unfolding cand_def by simp
qed

lemma first_best_later:
  assumes "first_best ns l now (i + 1) b" "cand ns l i i \<Longrightarrow> tdiff ns now b < tdiff ns now i"
  shows "first_best ns l now i b"
  unfolding first_best_def
proof (intro conjI allI impI)
  show "cand ns l i b" using assms(1) cand_step [of ns l i b] unfolding first_best_def by simp
next
  fix j assume c: "cand ns l i j"
  show "tdiff ns now b \<le> tdiff ns now j"
  proof (cases "cand ns l (i + 1) j")
    case True then show ?thesis using assms(1) unfolding first_best_def by simp
  next
    case False
    with c cand_step [of ns l i j] have "j = i" "cand ns l i i" by auto
    with assms(2) show ?thesis by simp
  qed
next
  fix j assume c: "cand ns l i j" and "j < b"
  show "tdiff ns now b < tdiff ns now j"
  proof (cases "cand ns l (i + 1) j")
    case True then show ?thesis using assms(1) \<open>j < b\<close> unfolding first_best_def by simp
  next
    case False
    with c cand_step [of ns l i j] have "j = i" "cand ns l i i" by auto
    with assms(2) show ?thesis by simp
  qed
qed

lemma scan_post:
  "sorted (map time ns) \<Longrightarrow>
     (if \<exists>j. cand ns l i j \<and> tdiff ns now j < bd
      then \<exists>b. first_best ns l now i b \<and> tdiff ns now b < bd \<and>
               scan ns l now i (bi, bd) = (Some b, tdiff ns now b)
      else scan ns l now i (bi, bd) = (bi, bd))"
proof (induction ns l now i "(bi, bd)" arbitrary: bi bd rule: scan.induct)
  case (1 ns l now i bi bd)
  let ?D = "tdiff ns now"
  let ?n = "length ns"
  note srt = "1.prems"
  show ?case
  proof (cases "i < ?n")
    case False
    then have neg: "\<not> (\<exists>j. cand ns l i j \<and> ?D j < bd)" by (simp add: cand_past)
    show ?thesis unfolding if_not_P [OF neg] using False by (subst scan.simps) simp
  next
    case lt: True
    show ?thesis
    proof (cases "lane (ns ! i) = l")
      case False
      have eq: "scan ns l now i (bi, bd) = scan ns l now (i + 1) (bi, bd)"
        using lt False by (subst scan.simps) simp
      from "1.hyps"(1) [OF lt False srt] show ?thesis
        unfolding eq cand_skip [OF False] first_best_skip [OF False] .
    next
      case sl: True
      then have nsl: "\<not> lane (ns ! i) \<noteq> l" by simp
      have ci: "cand ns l i i" using lt sl by (simp add: cand_def)
      show ?thesis
      proof (cases "fl (time (ns ! i) - now) > missWindow")
        case brk: True
        then have fpos: "0 < fl (time (ns ! i) - now)" using missWindow_pos by linarith
        then have xpos: "0 < time (ns ! i) - now" using fl_nonpos [of "time (ns ! i) - now"] by linarith
        have later: "?D i \<le> ?D j" if "cand ns l (i + 1) j" for j
        proof -
          from that have "i \<le> j" "j < ?n" by (auto simp: cand_def)
          then have "time (ns ! i) \<le> time (ns ! j)" using sorted_time_mono [OF srt] by blast
          then have "time (ns ! i) - now \<le> time (ns ! j) - now" by simp
          from fl_mono_pos [OF xpos this] fpos show ?thesis by (simp add: tdiff_def)
        qed
        have eq: "scan ns l now i (bi, bd) = (if ?D i < bd then (Some i, ?D i) else (bi, bd))"
          using lt sl brk by (subst scan.simps) (simp add: tdiff_def)
        show ?thesis
        proof (cases "?D i < bd")
          case True
          have fb: "first_best ns l now i i" using ci later by (rule first_best_here)
          have ex: "\<exists>j. cand ns l i j \<and> ?D j < bd" using ci True by blast
          show ?thesis unfolding if_P [OF ex] using fb True eq by auto
        next
          case False
          have neg: "\<not> (\<exists>j. cand ns l i j \<and> ?D j < bd)"
          proof
            assume "\<exists>j. cand ns l i j \<and> ?D j < bd"
            then obtain j where j: "cand ns l i j" "?D j < bd" by blast
            have "?D i \<le> ?D j" using j(1) later cand_step [of ns l i j] by auto
            with j(2) False show False by simp
          qed
          show ?thesis unfolding if_not_P [OF neg] using False eq by simp
        qed
      next
        case nb: False
        show ?thesis
        proof (cases "?D i < bd")
          case True
          have eq: "scan ns l now i (bi, bd) = scan ns l now (i + 1) (Some i, ?D i)"
            using lt sl nb True by (subst scan.simps) (simp add: tdiff_def)
          have "(if \<bar>fl (time (ns ! i) - now)\<bar> < bd then (Some i, \<bar>fl (time (ns ! i) - now)\<bar>) else (bi, bd)) = (Some i, ?D i)"
            using True by (simp add: tdiff_def)
          note IH = "1.hyps"(2) [OF lt nsl nb this srt]
          have ex: "\<exists>j. cand ns l i j \<and> ?D j < bd" using ci True by blast
          show ?thesis
          proof (cases "\<exists>j. cand ns l (i + 1) j \<and> ?D j < ?D i")
            case ex': True
            from IH [unfolded if_P [OF ex']] obtain b where b: "first_best ns l now (i + 1) b" "?D b < ?D i"
               "scan ns l now (i + 1) (Some i, ?D i) = (Some b, ?D b)" by blast
            have "first_best ns l now i b" using b(1,2) by (rule first_best_later)
            moreover have "?D b < bd" using b(2) True by simp
            ultimately show ?thesis unfolding if_P [OF ex] using eq b(3) by auto
          next
            case nex: False
            from IH [unfolded if_not_P [OF nex]] have r: "scan ns l now (i + 1) (Some i, ?D i) = (Some i, ?D i)" .
            have "first_best ns l now i i"
            proof (rule first_best_here [OF ci])
              fix j assume "cand ns l (i + 1) j"
              with nex show "?D i \<le> ?D j" by (meson not_less)
            qed
            then show ?thesis unfolding if_P [OF ex] using True eq r by auto
          qed
        next
          case False
          have eq: "scan ns l now i (bi, bd) = scan ns l now (i + 1) (bi, bd)"
            using lt sl nb False by (subst scan.simps) (simp add: tdiff_def)
          have "(if \<bar>fl (time (ns ! i) - now)\<bar> < bd then (Some i, \<bar>fl (time (ns ! i) - now)\<bar>) else (bi, bd)) = (bi, bd)"
            using False by (simp add: tdiff_def)
          note IH = "1.hyps"(2) [OF lt nsl nb this srt]
          have rng: "(\<exists>j. cand ns l i j \<and> ?D j < bd) = (\<exists>j. cand ns l (i + 1) j \<and> ?D j < bd)"
          proof
            assume "\<exists>j. cand ns l i j \<and> ?D j < bd"
            then obtain j where j: "cand ns l i j" "?D j < bd" by blast
            with False have "j \<noteq> i" by auto
            with j(1) cand_step [of ns l i j] have "cand ns l (i + 1) j" by simp
            with j(2) show "\<exists>j. cand ns l (i + 1) j \<and> ?D j < bd" by blast
          next
            assume "\<exists>j. cand ns l (i + 1) j \<and> ?D j < bd"
            then obtain j where j: "cand ns l (i + 1) j" "?D j < bd" by blast
            from j(1) cand_step [of ns l i j] have "cand ns l i j" by simp
            with j(2) show "\<exists>j. cand ns l i j \<and> ?D j < bd" by blast
          qed
          show ?thesis
          proof (cases "\<exists>j. cand ns l (i + 1) j \<and> ?D j < bd")
            case ex': True
            from IH [unfolded if_P [OF ex']] obtain b where b: "first_best ns l now (i + 1) b" "?D b < bd"
               "scan ns l now (i + 1) (bi, bd) = (Some b, ?D b)" by blast
            have "first_best ns l now i b" using b(1) 
            proof (rule first_best_later)
              show "?D b < ?D i" using b(2) False by simp
            qed
            then show ?thesis unfolding rng if_P [OF ex'] using eq b(2,3) by auto
          next
            case nex: False
            from IH [unfolded if_not_P [OF nex]] have r: "scan ns l now (i + 1) (bi, bd) = (bi, bd)" .
            show ?thesis unfolding rng if_not_P [OF nex] using eq r by simp
          qed
        qed
      qed
    qed
  qed
qed


lemma first_best_unique:
  assumes "first_best ns l now i b" "first_best ns l now i b'"
  shows "b = b'"
proof (rule ccontr)
  assume "b \<noteq> b'"
  then consider "b < b'" | "b' < b" by linarith
  then show False
  proof cases
    case 1
    with assms have "tdiff ns now b' < tdiff ns now b" "tdiff ns now b \<le> tdiff ns now b'"
      unfolding first_best_def by blast+
    then show False by simp
  next
    case 2
    with assms have "tdiff ns now b < tdiff ns now b'" "tdiff ns now b' \<le> tdiff ns now b"
      unfolding first_best_def by blast+
    then show False by simp
  qed
qed

lemma scan_finds:
  assumes srt: "sorted (map time ns)" and fb: "first_best ns l now i b" and lt: "tdiff ns now b < bd"
  shows "scan ns l now i (bi, bd) = (Some b, tdiff ns now b)"
proof -
  have ex: "\<exists>j. cand ns l i j \<and> tdiff ns now j < bd"
    using fb lt unfolding first_best_def by blast
  from scan_post [OF srt, where l = l and i = i and now = now and bd = bd and bi = bi, unfolded if_P [OF ex]]
  obtain b' where b': "first_best ns l now i b'"
    "scan ns l now i (bi, bd) = (Some b', tdiff ns now b')" by blast
  from first_best_unique [OF fb b'(1)] b'(2) show ?thesis by simp
qed

lemma scan_none:
  assumes srt: "sorted (map time ns)" and no: "\<And>j. cand ns l i j \<Longrightarrow> bd \<le> tdiff ns now j"
  shows "scan ns l now i (bi, bd) = (bi, bd)"
proof -
  have neg: "\<not> (\<exists>j. cand ns l i j \<and> tdiff ns now j < bd)"
    using no by (meson not_less)
  from scan_post [OF srt, where l = l and i = i and now = now and bd = bd and bi = bi, unfolded if_not_P [OF neg]] show ?thesis .
qed

lemma first_best_exists:
  assumes srt: "sorted (map time ns)" and c: "cand ns l i j"
  shows "\<exists>b. first_best ns l now i b"
proof -
  have "tdiff ns now j < tdiff ns now j + 1" by simp
  with c have ex: "\<exists>k. cand ns l i k \<and> tdiff ns now k < tdiff ns now j + 1" by blast
  from scan_post [OF srt, where l = l and i = i and now = now and bd = "tdiff ns now j + 1" and bi = None,
      unfolded if_P [OF ex]]
  show ?thesis by blast
qed

text \<open>
  C1. For a press of lane \<open>l\<close> on a chart sorted by time, with \<open>now\<close> the double
  \<open>currentTime - startTime\<close>: when \<open>b\<close> is the best same-lane candidate (a nearest note
  of that lane at or after the cursor, the earliest of them) and \<open>d\<close> is its distance
  to \<open>now\<close> as the code computes it, the double \<open>\<bar>note.time - now\<bar>\<close>, then \<open>d \<le> 0.08\<close>
  gives Perfect, score + 1000, combo + 1 and note \<open>b\<close> removed; otherwise \<open>d \<le> 0.18\<close>
  gives Good, score + 500, combo + 1 and note \<open>b\<close> removed; otherwise a Miss with
  combo 0 and the chart as it was. The thresholds are the doubles \<open>perfect\<close> and \<open>good\<close>
  that the literals denote, and the comparisons are exact. When there is no note of
  that lane at all it is a Miss with combo 0 and the chart as it was. A best
  candidate exists whenever the lane has a note.
\<close>

theorem handleHit_classification:
  assumes ctx: "audioCtx st"
    and now: "now = fl (currentTime - startTime st)"
    and srt: "sorted (map time (notes_arr st))"
  shows "(first_best (notes_arr st) l now (idxNextNote st) b \<and> tdiff (notes_arr st) now b \<le> perfect \<longrightarrow>
            handleHit currentTime l st =
              Inr (Perfect, st\<lparr>score := score st + 1000, combo := combo st + 1,
                                  notes_arr := splice1 b (notes_arr st)\<rparr>))
       \<and> (first_best (notes_arr st) l now (idxNextNote st) b \<and>
            perfect < tdiff (notes_arr st) now b \<and> tdiff (notes_arr st) now b \<le> good \<longrightarrow>
            handleHit currentTime l st =
              Inr (Good, st\<lparr>score := score st + 500, combo := combo st + 1,
                               notes_arr := splice1 b (notes_arr st)\<rparr>))
       \<and> (first_best (notes_arr st) l now (idxNextNote st) b \<and> good < tdiff (notes_arr st) now b \<longrightarrow>
            handleHit currentTime l st = Inr (Miss, st\<lparr>combo := 0\<rparr>))
       \<and> ((\<forall>j. \<not> cand (notes_arr st) l (idxNextNote st) j) \<longrightarrow>
            handleHit currentTime l st = Inr (Miss, st\<lparr>combo := 0\<rparr>))
       \<and> ((\<exists>j. cand (notes_arr st) l (idxNextNote st) j) \<longrightarrow>
            (\<exists>b. first_best (notes_arr st) l now (idxNextNote st) b))"
proof -
  let ?ns = "notes_arr st" and ?i = "idxNextNote st"
  let ?D = "tdiff ?ns now"
  have hh: "handleHit currentTime l st = Inr (judge now l st)"
    using ctx now by (simp add: handleHit_def)
  have found: "judge now l st =
      (if ?D b \<le> perfect then
         (Perfect, st\<lparr>score := score st + 1000, combo := combo st + 1, notes_arr := splice1 b ?ns\<rparr>)
       else if ?D b \<le> good then
         (Good, st\<lparr>score := score st + 500, combo := combo st + 1, notes_arr := splice1 b ?ns\<rparr>)
       else (Miss, st\<lparr>combo := 0\<rparr>))"
    if "first_best ?ns l now ?i b" "?D b < 999"
    using scan_finds [OF srt that, where bi = None] by (simp add: judge_def tdiff_def)
  have none_found: "judge now l st = (Miss, st\<lparr>combo := 0\<rparr>)"
    if "\<And>j. cand ?ns l ?i j \<Longrightarrow> 999 \<le> ?D j"
    using scan_none [OF srt that, where bi = None] by (simp add: judge_def)
  have small: "good < 999" by (simp add: good_val)
  have c1: "judge now l st = (Perfect, st\<lparr>score := score st + 1000, combo := combo st + 1, notes_arr := splice1 b ?ns\<rparr>)"
    if fb: "first_best ?ns l now ?i b" and le: "?D b \<le> perfect"
  proof -
    from le perfect_le_good small have "?D b < 999" by linarith
    from found [OF fb this] le show ?thesis by simp
  qed
  have c2: "judge now l st = (Good, st\<lparr>score := score st + 500, combo := combo st + 1, notes_arr := splice1 b ?ns\<rparr>)"
    if fb: "first_best ?ns l now ?i b" and gt: "perfect < ?D b" and le: "?D b \<le> good"
  proof -
    from le small have "?D b < 999" by linarith
    from found [OF fb this] gt le show ?thesis by simp
  qed
  have c3: "judge now l st = (Miss, st\<lparr>combo := 0\<rparr>)"
    if fb: "first_best ?ns l now ?i b" and far: "good < ?D b"
  proof (cases "?D b < 999")
    case True
    from far perfect_le_good have "\<not> ?D b \<le> perfect" "\<not> ?D b \<le> good" by linarith+
    with found [OF fb True] show ?thesis by simp
  next
    case False
    have far_all: "999 \<le> ?D j" if "cand ?ns l ?i j" for j
    proof -
      from fb that have "?D b \<le> ?D j" unfolding first_best_def by blast
      with False show ?thesis by simp
    qed
    show ?thesis by (rule none_found) (rule far_all)
  qed
  have c4: "judge now l st = (Miss, st\<lparr>combo := 0\<rparr>)" if "\<forall>j. \<not> cand ?ns l ?i j"
    using that by (intro none_found) blast
  have c5: "\<exists>b. first_best ?ns l now ?i b" if "\<exists>j. cand ?ns l ?i j"
    using that first_best_exists [OF srt] by blast
  show ?thesis unfolding hh using c1 c2 c3 c4 c5 by blast
qed

text \<open>
  The same at concrete presses. With the clock at the start time and the note at the
  double 0.08 the distance is that double: Perfect; likewise Good at the double 0.18,
  and a Miss at 0.25 or in a lane without notes. With \<open>startTime\<close> the double 0.15,
  the clock at the double 1.23 and the note at 1, \<open>now\<close> is the double 1.08 and the
  distance is \<open>0.08000000000000007\<close>, above the double 0.08: Good.
\<close>

theorem handleHit_classification_witness:
  "handleHit 0 0 (press_chart 0 perfect)
     = Inr (Perfect, (press_chart 0 perfect)\<lparr>score := 1000, combo := 6, notes_arr := []\<rparr>)
   \<and> handleHit 0 0 (press_chart 0 good)
     = Inr (Good, (press_chart 0 good)\<lparr>score := 500, combo := 6, notes_arr := []\<rparr>)
   \<and> handleHit 0 0 (press_chart 0 0.25) = Inr (Miss, (press_chart 0 0.25)\<lparr>combo := 0\<rparr>)
   \<and> handleHit 0 3 (press_chart 0 perfect) = Inr (Miss, (press_chart 0 perfect)\<lparr>combo := 0\<rparr>)
   \<and> tdiff (notes_arr (press_chart (fl 0.15) 1)) (fl (fl 1.23 - fl 0.15)) 0 = 5764607523034240 / 2 ^ 56
   \<and> perfect = 5764607523034235 / 2 ^ 56
   \<and> handleHit (fl 1.23) 0 (press_chart (fl 0.15) 1)
     = Inr (Good, (press_chart (fl 0.15) 1)\<lparr>score := 500, combo := 6, notes_arr := []\<rparr>)"
proof -
  have pos: "0 \<le> perfect" "perfect < good" "good < 1 / 4"
    by (simp_all add: perfect_val good_val)
  have fp: "fl perfect = perfect"
    unfolding perfect_val
    by (subst fl_binade [where e = "- 4"]) (simp_all add: round_even_def powr_neg_numeral)
  have fg: "fl good = good"
    unfolding good_val
    by (subst fl_binade [where e = "- 3"]) (simp_all add: round_even_def powr_neg_numeral)
  have fq: "fl (1 / 4) = 1 / 4"
    by (subst fl_binade [where e = "- 2"]) (simp_all add: round_even_def powr_neg_numeral)
  have f15: "fl 0.15 = 5404319552844595 / 2 ^ 55"
    by (subst fl_binade [where e = "- 3"]) (simp_all add: round_even_def powr_neg_numeral)
  have f123: "fl 1.23 = 5539427541665710 / 2 ^ 52"
    by (subst fl_binade [where e = 0]) (simp_all add: round_even_def powr_neg_numeral)
  have fnow: "fl (5539427541665710 / 2 ^ 52 - 5404319552844595 / 2 ^ 55) = 4863887597560136 / 2 ^ 52"
    by (subst fl_binade [where e = 0]) (simp_all add: round_even_def powr_neg_numeral)
  have fd: "fl (- (45035996273705 / 562949953421312)) = - (45035996273705 / 562949953421312)"
    by (subst fl_binade [where e = "- 4"]) (simp_all add: round_even_def powr_neg_numeral)
  have dA: "tdiff (notes_arr (press_chart 0 perfect)) 0 0 = perfect"
    using pos by (simp add: tdiff_def press_chart_def fp)
  have dB: "tdiff (notes_arr (press_chart 0 good)) 0 0 = good"
    using pos by (simp add: tdiff_def press_chart_def fg)
  have dC: "tdiff (notes_arr (press_chart 0 0.25)) 0 0 = 1 / 4"
    by (simp add: tdiff_def press_chart_def fq)
  have dD: "tdiff (notes_arr (press_chart (fl 0.15) 1)) (fl (fl 1.23 - fl 0.15)) 0 = 5764607523034240 / 2 ^ 56"
    unfolding f15 f123 fnow by (simp add: tdiff_def press_chart_def fd)
  have fbest: "first_best (notes_arr (press_chart s t)) 0 n 0 0" for s t n
    by (simp add: first_best_def cand_def press_chart_def)
  have nocand: "\<forall>j. \<not> cand (notes_arr (press_chart s t)) 3 0 j" for s t
    by (auto simp: cand_def press_chart_def)
  have srt: "sorted (map time (notes_arr (press_chart s t)))" for s t
    by (simp add: press_chart_def)
  have ctx: "audioCtx (press_chart s t)" for s t
    by (simp add: press_chart_def initial_def)
  have st: "startTime (press_chart s t) = s" "idxNextNote (press_chart s t) = 0"
    "score (press_chart s t) = 0" "combo (press_chart s t) = 5"
    "splice1 0 (notes_arr (press_chart s t)) = []" for s t
    by (simp_all add: press_chart_def initial_def splice1_def)
  have n0: "(0::real) = fl (0 - startTime (press_chart 0 t))" for t
    by (simp add: st fl_0)
  have A: "handleHit 0 0 (press_chart 0 perfect)
     = Inr (Perfect, (press_chart 0 perfect)\<lparr>score := 1000, combo := 6, notes_arr := []\<rparr>)"
    using handleHit_classification [where st = "press_chart 0 perfect" and currentTime = 0 and now = 0
        and l = 0 and b = 0, OF ctx n0 srt]
      fbest [of 0 perfect 0] dA by (simp add: st)
  have B: "handleHit 0 0 (press_chart 0 good)
     = Inr (Good, (press_chart 0 good)\<lparr>score := 500, combo := 6, notes_arr := []\<rparr>)"
    using handleHit_classification [where st = "press_chart 0 good" and currentTime = 0 and now = 0
        and l = 0 and b = 0, OF ctx n0 srt]
      fbest [of 0 good 0] dB pos by (simp add: st)
  have C: "handleHit 0 0 (press_chart 0 0.25) = Inr (Miss, (press_chart 0 0.25)\<lparr>combo := 0\<rparr>)"
    using handleHit_classification [where st = "press_chart 0 0.25" and currentTime = 0 and now = 0
        and l = 0 and b = 0, OF ctx n0 srt]
      fbest [of 0 "0.25" 0] dC pos by (simp add: st)
  have D: "handleHit 0 3 (press_chart 0 perfect) = Inr (Miss, (press_chart 0 perfect)\<lparr>combo := 0\<rparr>)"
    using handleHit_classification [where st = "press_chart 0 perfect" and currentTime = 0 and now = 0
        and l = 3 and b = 0, OF ctx n0 srt]
      nocand [of 0 perfect] by (simp add: st)
  have nE: "fl (fl 1.23 - fl 0.15) = fl (fl 1.23 - startTime (press_chart (fl 0.15) 1))"
    by (simp only: st)
  have E: "handleHit (fl 1.23) 0 (press_chart (fl 0.15) 1)
     = Inr (Good, (press_chart (fl 0.15) 1)\<lparr>score := 500, combo := 6, notes_arr := []\<rparr>)"
    using handleHit_classification [where st = "press_chart (fl 0.15) 1" and currentTime = "fl 1.23"
        and now = "fl (fl 1.23 - fl 0.15)" and l = 0 and b = 0, OF ctx nE srt]
      fbest [of "fl 0.15" 1 "fl (fl 1.23 - fl 0.15)"] dD
    by (simp add: st perfect_val good_val)
  show ?thesis using A B C D E dD perfect_val by simp
qed

section \<open>What a key press changes\<close>

lemma scan_index:
  "fst (scan ns l now i (bi, bd)) = Some b \<Longrightarrow> bi = Some b \<or> b < length ns"
proof (induction ns l now i "(bi, bd)" arbitrary: bi bd rule: scan.induct)
  case (1 ns l now i bi bd)
  show ?case
  proof (cases "i < length ns")
    case False
    with "1.prems" show ?thesis by (subst (asm) scan.simps) simp
  next
    case lt: True
    show ?thesis
    proof (cases "lane (ns ! i) = l")
      case False
      with lt "1.prems" have "fst (scan ns l now (i + 1) (bi, bd)) = Some b"
        by (subst (asm) scan.simps) simp
      from "1.hyps"(1) [OF lt False this] show ?thesis .
    next
      case sl: True
      then have nsl: "\<not> lane (ns ! i) \<noteq> l" by simp
      obtain bi' bd' where best: "(if \<bar>fl (time (ns ! i) - now)\<bar> < bd
          then (Some i, \<bar>fl (time (ns ! i) - now)\<bar>) else (bi, bd)) = (bi', bd')"
        by (metis surj_pair)
      then have bi': "bi' = Some i \<or> bi' = bi" by (auto split: if_splits)
      show ?thesis
      proof (cases "fl (time (ns ! i) - now) > missWindow")
        case True
        with lt sl "1.prems" best have "bi' = Some b"
          by (subst (asm) scan.simps) simp
        with bi' lt show ?thesis by auto
      next
        case nb: False
        with lt sl "1.prems" best have "fst (scan ns l now (i + 1) (bi', bd')) = Some b"
          by (subst (asm) scan.simps) simp
        from "1.hyps"(2) [OF lt nsl nb best this] bi' lt show ?thesis by auto
      qed
    qed
  qed
qed

lemma judge_cases:
  "(\<exists>b < length (notes_arr st).
      judge now l st = (Perfect, st\<lparr>score := score st + 1000, combo := combo st + 1,
                                   notes_arr := splice1 b (notes_arr st)\<rparr>))
   \<or> (\<exists>b < length (notes_arr st).
      judge now l st = (Good, st\<lparr>score := score st + 500, combo := combo st + 1,
                                notes_arr := splice1 b (notes_arr st)\<rparr>))
   \<or> judge now l st = (Miss, st\<lparr>combo := 0\<rparr>)"
proof (cases "fst (scan (notes_arr st) l now (idxNextNote st) (None, 999))")
  case None
  then show ?thesis by (simp add: judge_def)
next
  case (Some b)
  with scan_index [of "notes_arr st" l now "idxNextNote st" None 999 b]
  have "b < length (notes_arr st)" by simp
  with Some show ?thesis by (auto simp: judge_def)
qed

lemma length_splice1: "i < length xs \<Longrightarrow> Suc (length (splice1 i xs)) = length xs"
  by (auto simp: splice1_def)

lemma subseq_splice1: "subseq (splice1 i xs) xs"
proof -
  have "drop (Suc i) xs = drop 1 (drop i xs)" by simp
  then have "suffix (drop (Suc i) xs) (drop i xs)" by (metis suffix_drop)
  then have "subseq (drop (Suc i) xs) (drop i xs)" by (rule suffix_imp_subseq)
  then have "subseq (take i xs @ drop (Suc i) xs) (take i xs @ drop i xs)"
    by (simp only: subseq_append')
  then show ?thesis by (simp add: splice1_def)
qed

lemma one_note_press:
  "handleHit 1 0 one_note_chart =
     Inr (Perfect, one_note_chart\<lparr>score := 1000, combo := 1, notes_arr := []\<rparr>)"
  using missWindow_pos perfect_val
  by (simp add: handleHit_def judge_def one_note_chart_def initial_def scan.simps
      fl_0 fl_1 splice1_def)

text \<open>
  C6 (amended). A key press that \<open>handleHit\<close> judges changes nothing but score, combo
  and the chart: on Perfect or Good both score (by 1000 or 500) and combo (by 1) go up
  and exactly one note is removed; on Miss the score stays, combo becomes 0 and no
  note is removed. So at most one note is removed per press.
\<close>

theorem handleHit_frame:
  assumes "audioCtx st"
  shows "\<exists>r st'. handleHit currentTime l st = Inr (r, st') \<and>
     st' = st\<lparr>score := score st', combo := combo st', notes_arr := notes_arr st'\<rparr> \<and>
     ((r = Perfect \<and> score st' = score st + 1000 \<and> combo st' = combo st + 1 \<and>
         (\<exists>b < length (notes_arr st). notes_arr st' = splice1 b (notes_arr st)))
      \<or> (r = Good \<and> score st' = score st + 500 \<and> combo st' = combo st + 1 \<and>
         (\<exists>b < length (notes_arr st). notes_arr st' = splice1 b (notes_arr st)))
      \<or> (r = Miss \<and> score st' = score st \<and> combo st' = 0 \<and> notes_arr st' = notes_arr st))
     \<and> (length (notes_arr st') = length (notes_arr st) \<or>
         Suc (length (notes_arr st')) = length (notes_arr st))"
proof -
  let ?now = "fl (currentTime - startTime st)"
  have hh: "handleHit currentTime l st = Inr (judge ?now l st)"
    using assms by (simp add: handleHit_def)
  from judge_cases [of st ?now l] show ?thesis
    unfolding hh by (elim disjE exE conjE) (auto simp: length_splice1)
qed

theorem handleHit_frame_witness:
  "\<exists>r st'. handleHit 1 0 one_note_chart = Inr (r, st') \<and> r = Perfect \<and> score st' = 1000
      \<and> combo st' = 1 \<and> notes_arr st' = []"
  using handleHit_frame [of one_note_chart 1 0] unfolding one_note_press
  by (simp add: one_note_chart_def initial_def)

text \<open>
  C6 as stated fails: a Perfect press on the one-note chart changes both score and
  combo, not exactly one of them.
\<close>

theorem both_update_counterexample:
  "\<not> exactly_one_updates one_note_chart (snd (projr (handleHit 1 0 one_note_chart)))"
  unfolding one_note_press by (simp add: exactly_one_updates_def one_note_chart_def initial_def)

section \<open>Sessions: stop, replay and the cursor\<close>

lemma judge_idx: "idxNextNote (snd (judge now l st)) = idxNextNote st"
  using judge_cases [of st now l] by (elim disjE exE conjE) simp_all

lemma judge_notes_subseq: "subseq (notes_arr (snd (judge now l st))) (notes_arr st)"
  using judge_cases [of st now l] by (elim disjE exE conjE) (simp_all add: subseq_splice1)

lemma keydown_cases:
  "keydown ct k st = Inl TypeError
   \<or> (\<exists>l. keydown ct k st = Inr (st\<lparr>pressed := (pressed st)[l := True]\<rparr>))
   \<or> keydown ct k st = Inr st
   \<or> (\<exists>l now. keydown ct k st =
         Inr ((snd (judge now l st))\<lparr>pressed := (pressed (snd (judge now l st)))[l := True]\<rparr>))"
proof (cases "keyMap k")
  case None
  then show ?thesis by (simp add: keydown_def)
next
  case (Some l)
  show ?thesis
  proof (cases "pressed st ! l")
    case True
    with Some show ?thesis by (auto simp: keydown_def)
  next
    case False
    show ?thesis
    proof (cases "audioCtx st")
      case True
      with Some False have "keydown ct k st =
         Inr ((snd (judge (fl (ct - startTime st)) l st))\<lparr>pressed := (pressed (snd (judge (fl (ct - startTime st)) l st)))[l := True]\<rparr>)"
        by (simp add: keydown_def handleHit_def split: prod.splits)
      then show ?thesis by blast
    next
      case nctx: False
      with Some False show ?thesis by (simp add: keydown_def handleHit_def)
    qed
  qed
qed

lemma handle_idx:
  "idxNextNote (handle ext e st) =
     (case e of Start ct \<Rightarrow> (if audioBuffer st = None then idxNextNote st else 0)
      | _ \<Rightarrow> idxNextNote st)"
proof (cases e)
  case (KeyDown ct k)
  from keydown_cases [of ct k st] show ?thesis unfolding KeyDown
    by (elim disjE exE) (simp_all add: or_unchanged_def judge_idx)
qed (auto simp: load_def analyze_def genNotes_def start_def stop_def keyup_def or_unchanged_def
      split: option.splits sum.splits)

lemma handle_notes:
  "(\<forall>subdiv. e \<noteq> GenNotes subdiv) \<Longrightarrow> subseq (notes_arr (handle ext e st)) (notes_arr st)"
proof (cases e)
  case (KeyDown ct k)
  from keydown_cases [of ct k st] show ?thesis unfolding KeyDown
    by (elim disjE exE) (simp_all add: or_unchanged_def judge_notes_subseq)
qed (auto simp: load_def analyze_def start_def stop_def keyup_def or_unchanged_def
      split: option.splits sum.splits)

lemma run_append: "run ext (es @ es') st = run ext es' (run ext es st)"
  by (simp add: run_def)

lemma run_snoc: "run ext (es @ [e]) st = handle ext e (run ext es st)"
  by (simp add: run_def)

lemma run_notes:
  "(\<forall>subdiv. GenNotes subdiv \<notin> set es) \<Longrightarrow> subseq (notes_arr (run ext es st)) (notes_arr st)"
proof (induction es rule: rev_induct)
  case Nil
  then show ?case by (simp add: run_def)
next
  case (snoc e es)
  then have "subseq (notes_arr (run ext es st)) (notes_arr st)" by simp
  moreover have "subseq (notes_arr (handle ext e (run ext es st))) (notes_arr (run ext es st))"
    using snoc.prems by (intro handle_notes) auto
  ultimately show ?case unfolding run_snoc by (rule subseq_order.order_trans [rotated])
qed

lemma run_idx_zero: "idxNextNote st = 0 \<Longrightarrow> idxNextNote (run ext es st) = 0"
proof (induction es rule: rev_induct)
  case Nil
  then show ?case by (simp add: run_def)
next
  case (snoc e es)
  then show ?case unfolding run_snoc by (simp add: handle_idx split: event.splits)
qed

text \<open>
  C5 (amended). Stop only clears \<open>playing\<close>: chart, score, combo and cursor stay as
  they are. A following Start sets score, combo and cursor to 0 and leaves the chart
  as it is then. Over any events without note generation the chart only loses notes:
  it is a subsequence of what it was, so a replay runs on the notes not yet hit.
\<close>

theorem stop_start_frame:
  "notes_arr (handle ext Stop st) = notes_arr st \<and> score (handle ext Stop st) = score st
   \<and> combo (handle ext Stop st) = combo st \<and> idxNextNote (handle ext Stop st) = idxNextNote st
   \<and> \<not> playing (handle ext Stop st)
   \<and> (audioBuffer st \<noteq> None \<longrightarrow>
        score (run ext [Stop, Start ct] st) = 0 \<and> combo (run ext [Stop, Start ct] st) = 0
        \<and> idxNextNote (run ext [Stop, Start ct] st) = 0
        \<and> notes_arr (run ext [Stop, Start ct] st) = notes_arr st)
   \<and> ((\<forall>subdiv. GenNotes subdiv \<notin> set es) \<longrightarrow> subseq (notes_arr (run ext es st)) (notes_arr st))"
  using run_notes [of es ext st]
  by (auto simp: run_def stop_def start_def or_unchanged_def)

theorem stop_start_frame_witness:
  "audioBuffer one_note_chart \<noteq> None
   \<and> score (run no_externals [Stop, Start 5] one_note_chart) = 0
   \<and> notes_arr (run no_externals [Stop, Start 5] one_note_chart) = notes_arr one_note_chart
   \<and> (\<forall>subdiv. GenNotes subdiv \<notin> set [Start 0, KeyDown 1.15 ''f'', Stop, Start 5])
   \<and> subseq (notes_arr (run no_externals [Start 0, KeyDown 1.15 ''f'', Stop, Start 5] one_note_chart))
        (notes_arr one_note_chart)"
proof -
  have a: "audioBuffer one_note_chart \<noteq> None"
    by (simp add: one_note_chart_def initial_def)
  have b: "\<forall>subdiv. GenNotes subdiv \<notin> set [Start 0, KeyDown 1.15 ''f'', Stop, Start 5]"
    by simp
  from stop_start_frame [of no_externals one_note_chart 5 "[Start 0, KeyDown 1.15 ''f'', Stop, Start 5]"] a b
  show ?thesis by blast
qed

lemma replay_eval:
  "run no_externals [Start 0, KeyDown 1.15 ''f''] one_note_chart =
     one_note_chart\<lparr>startTime := 0.15, playing := True, score := 1000, combo := 1,
        notes_arr := [], pressed := [True, False, False, False]\<rparr>"
  using missWindow_pos perfect_val
  by (simp add: run_def start_def keydown_def keyMap_def or_unchanged_def handleHit_def judge_def
      one_note_chart_def initial_def scan.simps fl_0 fl_1 splice1_def)

text \<open>
  C5 as stated fails: after Start, a Perfect press, Stop and Start again, the note
  that was hit is missing from the chart; and after the Stop the score is still 1000.
\<close>

theorem replay_counterexample:
  "notes_arr (run no_externals ([Start 0, KeyDown 1.15 ''f''] @ [Stop, Start 5]) one_note_chart)
     \<noteq> notes_arr one_note_chart
   \<and> score (run no_externals ([Start 0, KeyDown 1.15 ''f''] @ [Stop]) one_note_chart) \<noteq> 0"
  unfolding run_append replay_eval
  by (simp add: run_def start_def stop_def or_unchanged_def one_note_chart_def initial_def)

text \<open>
  C10. A successful Start sets \<open>idxNextNote\<close> to 0, and after any further events it is
  still 0 (so it never decreases), and the search loop of \<open>handleHit\<close> starts at index
  0; no handler other than that of Start changes \<open>idxNextNote\<close>.
\<close>

theorem cursor_fixed:
  "(start ct st = Inr st' \<longrightarrow>
      idxNextNote st' = 0 \<and> idxNextNote (run ext es st') = 0
      \<and> idxNextNote (run ext es st') \<le> idxNextNote (run ext (es @ es') st')
      \<and> scan (notes_arr (run ext es st')) l now (idxNextNote (run ext es st')) (None, 999)
          = scan (notes_arr (run ext es st')) l now 0 (None, 999))
   \<and> ((\<forall>c. e \<noteq> Start c) \<longrightarrow> idxNextNote (handle ext e st) = idxNextNote st)"
proof -
  have z0: "idxNextNote st' = 0" if "start ct st = Inr st'"
    using that by (auto simp: start_def split: option.splits)
  then have z: "idxNextNote (run ext es st') = 0" if "start ct st = Inr st'" for es
    using that by (simp add: run_idx_zero)
  have h: "idxNextNote (handle ext e st) = idxNextNote st" if "\<forall>c. e \<noteq> Start c"
    using that by (simp add: handle_idx split: event.splits)
  show ?thesis using z0 z h by simp
qed

theorem cursor_fixed_witness:
  "start 0 one_note_chart = Inr (one_note_chart\<lparr>startTime := 0.15, playing := True\<rparr>)
   \<and> idxNextNote (run no_externals [KeyDown 1.15 ''f'', Stop, KeyUp ''f'']
         (one_note_chart\<lparr>startTime := 0.15, playing := True\<rparr>)) = 0
   \<and> (\<forall>c. KeyDown 1.15 ''f'' \<noteq> Start c)
   \<and> idxNextNote (handle no_externals (KeyDown 1.15 ''f'') one_note_chart) = idxNextNote one_note_chart"
proof -
  have a: "start 0 one_note_chart = Inr (one_note_chart\<lparr>startTime := 0.15, playing := True\<rparr>)"
    by (simp add: start_def one_note_chart_def initial_def)
  have b: "\<forall>c. KeyDown 1.15 ''f'' \<noteq> Start c" by simp
  from cursor_fixed [of 0 one_note_chart "one_note_chart\<lparr>startTime := 0.15, playing := True\<rparr>"
      no_externals "[KeyDown 1.15 ''f'', Stop, KeyUp ''f'']" "[]" 0 0 "KeyDown 1.15 ''f''"] a b
  show ?thesis by blast
qed

section \<open>The energy envelope\<close>

lemma fold_sum: "fold (\<lambda>j s. s + f j) [0..<n] a = a + (\<Sum>j<n. f j)"
  by (induction n) (simp_all add: algebra_simps)

lemma window_sum_eq: "window_sum raw i = (\<Sum>j<win. (raw ! (i + j))\<^sup>2)"
  unfolding window_sum_def by (simp add: fold_sum power2_eq_square)

lemma step_pos: "0 < step"
  by (simp add: step_def)

lemma frames_from_step:
  assumes "i + win < n"
  shows "frames_from n i = Suc (frames_from n (i + step))"
proof -
  define d where "d = n - win - i"
  have d: "0 < d" using assms by (simp add: d_def)
  have A: "frames_from n i = (d + step - 1) div step"
    using assms by (simp add: frames_from_def d_def)
  show ?thesis
  proof (cases "i + step + win < n")
    case True
    then have gt: "step < d" by (simp add: d_def)
    have e: "n - win - (i + step) + step - 1 = d - 1" using gt step_pos by (simp add: d_def)
    have B: "frames_from n (i + step) = (d - 1) div step"
      by (simp only: frames_from_def True if_True e)
    have e2: "d + step - 1 = (d - 1) + step" using d by simp
    have "(d - 1 + step) div step = Suc ((d - 1) div step)"
      using step_pos by simp
    then show ?thesis unfolding A B e2 .
  next
    case False
    then have le: "d \<le> step" by (simp add: d_def)
    have B: "frames_from n (i + step) = 0"
      by (simp only: frames_from_def False if_False)
    have "(d + step - 1) div step = 1"
      using d le step_pos by (intro div_nat_eqI) simp_all
    then show ?thesis unfolding A B by simp
  qed
qed

lemma frames_from_done: "\<not> i + win < n \<Longrightarrow> frames_from n i = 0"
  by (simp add: frames_from_def)

lemma env_loop_eq:
  "env_loop raw i env =
     env @ map (\<lambda>k. sqrt (window_sum raw (i + k * step) / real win)) [0..<frames_from (length raw) i]"
proof (induction raw i env rule: env_loop.induct)
  case (1 raw i env)
  show ?case
  proof (cases "i + win < length raw")
    case True
    then have c: "int i < int (length raw) - int win" by simp
    have "env_loop raw i env = env_loop raw (i + step) (env @ [sqrt (window_sum raw i / real win)])"
      using c by (subst env_loop.simps) simp
    also have "\<dots> = (env @ [sqrt (window_sum raw i / real win)]) @
        map (\<lambda>k. sqrt (window_sum raw (i + step + k * step) / real win)) [0..<frames_from (length raw) (i + step)]"
      by (rule "1.IH" [OF c])
    also have "\<dots> = env @ map (\<lambda>k. sqrt (window_sum raw (i + k * step) / real win)) [0..<frames_from (length raw) i]"
      unfolding frames_from_step [OF True] map_upt_Suc by (simp add: add.assoc)
    finally show ?thesis .
  next
    case False
    then have c: "\<not> int i < int (length raw) - int win" by simp
    show ?thesis unfolding frames_from_done [OF False]
      using c by (subst env_loop.simps) simp
  qed
qed

lemma frames_from_range: "k < frames_from n i \<Longrightarrow> i + k * step + win < n"
proof (induction k arbitrary: i)
  case 0
  then show ?case by (simp add: frames_from_def split: if_splits)
next
  case (Suc k)
  then have lt: "i + win < n" by (simp add: frames_from_def split: if_splits)
  from Suc.prems have "k < frames_from n (i + step)" unfolding frames_from_step [OF lt] by simp
  from Suc.IH [OF this] show ?case by (simp add: algebra_simps)
qed

text \<open>
  C3 (amended). The envelope has one element for each window start
  \<open>i = 0, step, 2 * step, ...\<close> with \<open>i < length raw - win\<close>: its length is
  \<open>(n - win)\<close> divided by \<open>step\<close> and rounded up when \<open>n > win\<close>, and 0 otherwise. Element
  \<open>k\<close> is the square root of the mean of the squares of the \<open>win\<close> samples from
  \<open>k * step\<close> on, which all lie inside the buffer. A buffer of at most \<open>win\<close> samples
  gives the empty envelope. \<open>computeEnv\<close> is a function of the buffer alone.
\<close>

theorem envelope_frames:
  "length (computeEnv raw) = frame_count (length raw)
   \<and> (\<forall>k < length (computeEnv raw).
        computeEnv raw ! k = sqrt ((\<Sum>j<win. (raw ! (k * step + j))\<^sup>2) / real win)
        \<and> k * step + win < length raw)
   \<and> (length raw \<le> win \<longrightarrow> computeEnv raw = [])"
proof -
  have ff: "frames_from n 0 = frame_count n" for n
    by (simp add: frames_from_def frame_count_def)
  have eq: "computeEnv raw = map (\<lambda>k. sqrt (window_sum raw (k * step) / real win)) [0..<frame_count (length raw)]"
    unfolding computeEnv_def env_loop_eq by (simp add: ff)
  have rng: "k * step + win < length raw" if "k < frame_count (length raw)" for k
    using frames_from_range [of k "length raw" 0] that by (simp add: ff)
  have len: "length (computeEnv raw) = frame_count (length raw)"
    unfolding eq by simp
  have elt: "computeEnv raw ! k = sqrt ((\<Sum>j<win. (raw ! (k * step + j))\<^sup>2) / real win)"
    if "k < frame_count (length raw)" for k
    unfolding eq using that by (simp add: window_sum_eq)
  have emp: "computeEnv raw = []" if "length raw \<le> win"
    unfolding eq using that by (simp add: frame_count_def)
  show ?thesis using len elt rng emp by simp
qed


theorem envelope_frames_witness:
  "length (computeEnv (replicate 1025 0)) = 1
   \<and> (0::nat) < length (computeEnv (replicate 1025 0))
   \<and> computeEnv (replicate 1025 0) ! 0 = sqrt ((\<Sum>j<win. (replicate 1025 0 ! (0 * step + j))\<^sup>2) / real win)
   \<and> 0 * step + win < length (replicate 1025 (0::real))
   \<and> length (replicate 1000 (0::real)) \<le> win \<and> computeEnv (replicate 1000 0) = []"
proof -
  have fc: "frame_count (length (replicate 1025 (0::real))) = 1"
    by (simp add: frame_count_def win_def step_def)
  have le: "length (replicate 1000 (0::real)) \<le> win"
    by (simp add: win_def)
  from envelope_frames [of "replicate 1025 0"] envelope_frames [of "replicate 1000 0"] fc le
  show ?thesis by (metis less_numeral_extra(1))
qed

text \<open>
  C3 as stated fails: a buffer of 1025 samples has one frame, and
  \<open>floor((1025 - 1024) / 512)\<close> is 0.
\<close>

theorem envelope_length_counterexample:
  "int (length (computeEnv (replicate 1025 0))) \<noteq> claimed_env_length (length (replicate 1025 (0::real)))"
proof -
  have "length (computeEnv (replicate 1025 0)) = 1"
    unfolding computeEnv_def env_loop_eq by (simp add: frames_from_def win_def step_def)
  then show ?thesis by (simp add: claimed_env_length_def win_def step_def)
qed

section \<open>Onset detection\<close>

lemma candidate_frames_step:
  "i < length nrm \<Longrightarrow> candidate_frames nrm th i =
     (if nrm ! i > th then i # candidate_frames nrm th (i + 1) else candidate_frames nrm th (i + 1))"
  by (simp add: candidate_frames_def upt_conv_Cons)

lemma candidate_frames_done: "\<not> i < length nrm \<Longrightarrow> candidate_frames nrm th i = []"
  by (simp add: candidate_frames_def)

lemma onset_loop_eq:
  "onset_loop nrm th sr i ons = gap_filter ons (map (frame_sec sr) (candidate_frames nrm th i))"
proof (induction nrm th sr i ons rule: onset_loop.induct)
  case (1 nrm th sr i ons)
  show ?case
  proof (cases "i < length nrm")
    case False
    then show ?thesis
      by (subst onset_loop.simps) (simp add: candidate_frames_done)
  next
    case lt: True
    show ?thesis
    proof (cases "nrm ! i > th")
      case False
      have "onset_loop nrm th sr i ons = onset_loop nrm th sr (i + 1) ons"
        using lt False by (subst onset_loop.simps) simp
      also note "1.IH"(3) [OF lt False]
      finally show ?thesis using lt False by (simp add: candidate_frames_step)
    next
      case c: True
      show ?thesis
      proof (cases "ons = [] \<or> frame_sec sr i - last ons > 0.12")
        case True
        have "onset_loop nrm th sr i ons = onset_loop nrm th sr (i + 1) (ons @ [frame_sec sr i])"
          using lt c True by (subst onset_loop.simps) simp
        also note "1.IH"(1) [OF lt c True]
        finally show ?thesis using lt c True by (simp add: candidate_frames_step)
      next
        case False
        have "onset_loop nrm th sr i ons = onset_loop nrm th sr (i + 1) ons"
          using lt c False by (subst onset_loop.simps) simp
        also note "1.IH"(2) [OF lt c False]
        finally show ?thesis using lt c False by (simp add: candidate_frames_step)
      qed
    qed
  qed
qed


lemma gap_filter_subseq: "\<exists>zs. gap_filter ons cs = ons @ zs \<and> subseq zs cs"
proof (induction cs arbitrary: ons)
  case Nil
  then show ?case by simp
next
  case (Cons c cs)
  show ?case
  proof (cases "ons = [] \<or> c - last ons > 0.12")
    case True
    from Cons.IH [of "ons @ [c]"] obtain zs where "gap_filter (ons @ [c]) cs = (ons @ [c]) @ zs" "subseq zs cs"
      by blast
    with True have "gap_filter ons (c # cs) = ons @ (c # zs)" "subseq (c # zs) (c # cs)" by auto
    then show ?thesis by blast
  next
    case False
    from Cons.IH [of ons] obtain zs where "gap_filter ons cs = ons @ zs" "subseq zs cs" by blast
    with False have "gap_filter ons (c # cs) = ons @ zs" "subseq zs (c # cs)" by auto
    then show ?thesis by blast
  qed
qed

lemma gap_filter_length: "length ons \<le> length (gap_filter ons cs)"
  using gap_filter_subseq [of ons cs] by auto

lemma gap_filter_mono:
  "subseq xs ys \<Longrightarrow> sorted ys \<Longrightarrow> ahead a b \<Longrightarrow> (b \<noteq> [] \<longrightarrow> (\<forall>y\<in>set ys. last b \<le> y))
     \<Longrightarrow> length (gap_filter a xs) \<le> length (gap_filter b ys)"
proof (induction xs ys arbitrary: a b rule: list_emb.induct)
  case (list_emb_Nil ys)
  have "length a \<le> length b" using list_emb_Nil.prems by (simp add: ahead_def)
  also have "\<dots> \<le> length (gap_filter b ys)" by (rule gap_filter_length)
  finally show ?case by simp
next
  case (list_emb_Cons xs ys y)
  have srt: "sorted ys" and ylow: "\<forall>z\<in>set ys. y \<le> z" using list_emb_Cons.prems(1) by auto
  show ?case
  proof (cases "b = [] \<or> y - last b > 0.12")
    case True
    have "ahead a (b @ [y])" using list_emb_Cons.prems(2) by (simp add: ahead_def)
    moreover have "b @ [y] \<noteq> [] \<longrightarrow> (\<forall>z\<in>set ys. last (b @ [y]) \<le> z)" using ylow by simp
    ultimately have "length (gap_filter a xs) \<le> length (gap_filter (b @ [y]) ys)"
      using list_emb_Cons.IH srt by blast
    with True show ?thesis by simp
  next
    case False
    have "b \<noteq> [] \<longrightarrow> (\<forall>z\<in>set ys. last b \<le> z)" using list_emb_Cons.prems(3) by simp
    then have "length (gap_filter a xs) \<le> length (gap_filter b ys)"
      using list_emb_Cons.IH srt list_emb_Cons.prems(2) by blast
    with False show ?thesis by simp
  qed
next
  case (list_emb_Cons2 x y xs ys)
  have xy: "x = y" by fact
  have srt: "sorted ys" and ylow: "\<forall>z\<in>set ys. y \<le> z" using list_emb_Cons2.prems(1) by auto
  have ah: "ahead a b" by fact
  have blow: "b \<noteq> [] \<longrightarrow> last b \<le> y" using list_emb_Cons2.prems(3) by simp
  have keep: "b \<noteq> [] \<longrightarrow> (\<forall>z\<in>set ys. last b \<le> z)" using list_emb_Cons2.prems(3) by simp
  have new: "b @ [y] \<noteq> [] \<longrightarrow> (\<forall>z\<in>set ys. last (b @ [y]) \<le> z)" using ylow by simp
  let ?accA = "a = [] \<or> y - last a > 0.12" and ?accB = "b = [] \<or> y - last b > 0.12"
  show ?case
  proof (cases ?accA)
    case accA: True
    show ?thesis
    proof (cases ?accB)
      case accB: True
      have "ahead (a @ [y]) (b @ [y])" using ah by (simp add: ahead_def)
      then have "length (gap_filter (a @ [y]) xs) \<le> length (gap_filter (b @ [y]) ys)"
        using list_emb_Cons2.IH srt new by blast
      with accA accB xy show ?thesis by simp
    next
      case rejB: False
      then have bne: "b \<noteq> []" and close: "y - last b \<le> 0.12" by auto
      have "length a < length b"
      proof (rule ccontr)
        assume "\<not> length a < length b"
        with ah have eq: "length a = length b" by (simp add: ahead_def)
        with bne have ane: "a \<noteq> []" by auto
        with ah eq have "last b \<le> last a" by (simp add: ahead_def)
        moreover from accA ane have "y - last a > 0.12" by simp
        ultimately show False using close by simp
      qed
      moreover from blow bne have "last b \<le> y" by simp
      ultimately have "ahead (a @ [y]) b" by (simp add: ahead_def)
      then have "length (gap_filter (a @ [y]) xs) \<le> length (gap_filter b ys)"
        using list_emb_Cons2.IH srt keep by blast
      with accA rejB xy show ?thesis by simp
    qed
  next
    case rejA: False
    show ?thesis
    proof (cases ?accB)
      case accB: True
      have "ahead a (b @ [y])" using ah by (simp add: ahead_def)
      then have "length (gap_filter a xs) \<le> length (gap_filter (b @ [y]) ys)"
        using list_emb_Cons2.IH srt new by blast
      with rejA accB xy show ?thesis by simp
    next
      case rejB: False
      have "length (gap_filter a xs) \<le> length (gap_filter b ys)"
        using list_emb_Cons2.IH srt keep ah by blast
      with rejA rejB xy show ?thesis by simp
    qed
  qed
qed

lemma detect_onsets_eq:
  "detect_onsets env sens sr =
     gap_filter [] (map (frame_sec sr)
       (candidate_frames (normalize (computeDiffs env)) (0.18 / sens_of sens) 0))"
  by (simp add: detect_onsets_def onset_loop_eq thresh_of_def)






lemma frame_sec_mono:
  assumes "0 < sr" "i \<le> j"
  shows "frame_sec sr i \<le> frame_sec sr j"
proof -
  have "(i + 1) * step \<le> (j + 1) * step" using assms(2) by simp
  then have "real ((i + 1) * step) \<le> real ((j + 1) * step)" by (simp only: of_nat_le_iff)
  then show ?thesis unfolding frame_sec_def using assms(1) by (rule divide_right_mono [OF _ less_imp_le])
qed

lemma candidates_sorted:
  assumes "0 < sr"
  shows "sorted (map (frame_sec sr) (candidate_frames nrm th i))"
proof -
  have "sorted (candidate_frames nrm th i)"
    unfolding candidate_frames_def by (simp add: sorted_wrt_filter)
  then have "sorted_wrt (\<lambda>x y. frame_sec sr x \<le> frame_sec sr y) (candidate_frames nrm th i)"
    by (rule sorted_wrt_mono_rel [rotated]) (simp add: frame_sec_mono assms)
  then show ?thesis by (simp add: sorted_map)
qed

lemma candidates_subseq:
  assumes "th2 \<le> th1"
  shows "subseq (candidate_frames nrm th1 i) (candidate_frames nrm th2 i)"
proof -
  have "candidate_frames nrm th1 i = filter (\<lambda>j. nrm ! j > th1) (candidate_frames nrm th2 i)"
    unfolding candidate_frames_def filter_filter
    by (rule filter_cong) (use assms in auto)
  then show ?thesis by (metis subseq_filter_left)
qed

text \<open>
  C9. For a fixed envelope and a positive sample rate, a higher sensitivity
  \<open>k2 > k1 > 0\<close> gives a lower threshold \<open>0.18 / k\<close> and at least as many onsets.
\<close>

theorem sensitivity_monotone:
  assumes "0 < k1" and "k1 < k2" and "0 < sr"
  shows "thresh_of (Some k2) < thresh_of (Some k1)
     \<and> length (detect_onsets env (Some k1) sr) \<le> length (detect_onsets env (Some k2) sr)"
proof -
  have s: "sens_of (Some k1) = k1" "sens_of (Some k2) = k2"
    using assms by (simp_all add: sens_of_def)
  have th: "0.18 / k2 < 0.18 / k1"
    using assms by (simp add: frac_less2)
  let ?n = "normalize (computeDiffs env)"
  have "subseq (map (frame_sec sr) (candidate_frames ?n (0.18 / k1) 0))
               (map (frame_sec sr) (candidate_frames ?n (0.18 / k2) 0))"
    using th by (intro subseq_map candidates_subseq) simp
  moreover have "sorted (map (frame_sec sr) (candidate_frames ?n (0.18 / k2) 0))"
    using assms(3) by (rule candidates_sorted)
  moreover have "ahead [] []" by (simp add: ahead_def)
  ultimately have "length (gap_filter [] (map (frame_sec sr) (candidate_frames ?n (0.18 / k1) 0)))
      \<le> length (gap_filter [] (map (frame_sec sr) (candidate_frames ?n (0.18 / k2) 0)))"
    by (intro gap_filter_mono) simp_all
  then show ?thesis using th by (simp add: detect_onsets_eq s thresh_of_def)
qed

lemma more_onsets:
  "detect_onsets [0, 0.1, 0, 1] (Some 1) 512 = [3] \<and> detect_onsets [0, 0.1, 0, 1] (Some 2) 512 = [1, 3]"
  by (simp add: detect_onsets_def computeDiffs_def normalize_def js_max_def thresh_of_def sens_of_def
      onset_loop.simps frame_sec_def step_def upt_rec)

theorem sensitivity_monotone_witness:
  "(0::real) < 1 \<and> (1::real) < 2 \<and> (0::real) < 512
   \<and> thresh_of (Some 2) < thresh_of (Some 1)
   \<and> length (detect_onsets [0, 0.1, 0, 1] (Some 1) 512) \<le> length (detect_onsets [0, 0.1, 0, 1] (Some 2) 512)
   \<and> length (detect_onsets [0, 0.1, 0, 1] (Some 1) 512) = 1
   \<and> length (detect_onsets [0, 0.1, 0, 1] (Some 2) 512) = 2"
  using sensitivity_monotone [of 1 2 512 "[0, 0.1, 0, 1]"] more_onsets
  by simp

section \<open>Snapping onsets to the beat grid\<close>

lemma nearest_fold:
  "fold (\<lambda>g (nearest, mind). if \<bar>g - t\<bar> < mind then (Some g, \<bar>g - t\<bar>) else (nearest, mind)) grid (nr, md)
     = (if grid \<noteq> [] \<and> \<bar>nearest_grid grid t - t\<bar> < md
        then (Some (nearest_grid grid t), \<bar>nearest_grid grid t - t\<bar>) else (nr, md))"
proof (induction grid arbitrary: nr md)
  case Nil
  then show ?case by simp
next
  case (Cons x xs)
  show ?case
  proof (cases xs)
    case Nil
    then show ?thesis by (simp add: nearest_grid_def)
  next
    case (Cons y ys)
    then have ne: "xs \<noteq> []" by simp
    have nx: "nearest_grid (x # xs) t =
        (if \<bar>x - t\<bar> \<le> \<bar>nearest_grid xs t - t\<bar> then x else nearest_grid xs t)"
      unfolding Cons nearest_grid_def by (simp add: Let_def)
    show ?thesis
    proof (cases "\<bar>x - t\<bar> < md")
      case True
      then show ?thesis using Cons.IH [of "Some x" "\<bar>x - t\<bar>"] ne nx by auto
    next
      case False
      then show ?thesis using Cons.IH [of nr md] ne nx by auto
    qed
  qed
qed

lemma nearest_scan_eq:
  "nearest_scan grid t =
     (if grid \<noteq> [] \<and> \<bar>nearest_grid grid t - t\<bar> < 999
      then (Some (nearest_grid grid t), \<bar>nearest_grid grid t - t\<bar>) else (None, 999))"
  unfolding nearest_scan_def by (rule nearest_fold)

lemma cand_loop_step:
  assumes "w < 999"
  shows "(if exceeds (snd (nearest_scan grid t)) (Num w) then []
          else [(fst (nearest_scan grid t), f t)]) = snap_spec grid w f t"
  using assms unfolding nearest_scan_eq snap_spec_def by auto

lemma cand_loop_eq:
  assumes "w < 999"
  shows "cand_loop f grid (Num w) ts cs = cs @ concat (map (snap_spec grid w f) ts)"
proof (induction ts arbitrary: cs)
  case Nil
  then show ?case by simp
next
  case (Cons t ts)
  show ?case
  proof (cases "exceeds (snd (nearest_scan grid t)) (Num w)")
    case True
    with cand_loop_step [OF assms, of grid t f] have "snap_spec grid w f t = []" by simp
    with True Cons.IH [of cs] show ?thesis by simp
  next
    case False
    with cand_loop_step [OF assms, of grid t f]
    have "snap_spec grid w f t = [(fst (nearest_scan grid t), f t)]" by simp
    with False Cons.IH [of "cs @ [(fst (nearest_scan grid t), f t)]"] show ?thesis by simp
  qed
qed

lemma nearest_grid_nearest:
  assumes "grid \<noteq> []"
  shows "nearest_grid grid t \<in> set grid \<and> (\<forall>g\<in>set grid. \<bar>nearest_grid grid t - t\<bar> \<le> \<bar>g - t\<bar>)"
proof (intro conjI ballI)
  show "nearest_grid grid t \<in> set grid"
    unfolding nearest_grid_def using assms by (rule arg_min_list_in)
next
  fix g assume g: "g \<in> set grid"
  let ?f = "\<lambda>g. \<bar>g - t\<bar>"
  have "?f (arg_min_list ?f grid) = Min (?f ` set grid)"
    using assms by (rule f_arg_min_list_f)
  also have "\<dots> \<le> ?f g" using g by (intro Min_le) auto
  finally show "\<bar>nearest_grid grid t - t\<bar> \<le> \<bar>g - t\<bar>"
    by (simp add: nearest_grid_def)
qed

text \<open>
  C7. With a snap window \<open>w = (60 / bpm) / (subdiv / 4) / 2\<close> below 999 (the start
  value of \<open>mind\<close>; \<open>bpm * subdiv\<close> above 0.13 is enough), the candidates are, onset by
  onset in order: nothing when the grid is empty or the nearest grid time \<open>g\<close> of the
  onset \<open>t\<close> has \<open>\<bar>g - t\<bar> > w\<close>, and otherwise the candidate with time \<open>g\<close> and lane
  \<open>freqToLane t\<close>; \<open>g\<close> is a grid time that no grid time beats in absolute difference.
\<close>

theorem snap_to_grid:
  assumes "subdiv \<noteq> 0"
    and "w = (60 / bpm_or_default (bpmEstimate st)) / (real_of_int subdiv / 4) / 2"
    and "w < 999"
    and "grid = B (bpm_or_default (bpmEstimate st)) subdiv (buf_duration ab)"
  shows "gen_candidates B F subdiv ab st = concat (map (snap_spec grid w F) (onsets st))
     \<and> (grid \<noteq> [] \<longrightarrow> nearest_grid grid t \<in> set grid
           \<and> (\<forall>g\<in>set grid. \<bar>nearest_grid grid t - t\<bar> \<le> \<bar>g - t\<bar>))
     \<and> snap_spec grid w F t =
          (if grid = [] \<or> \<bar>nearest_grid grid t - t\<bar> > w then []
           else [(Some (nearest_grid grid t), F t)])"
proof -
  have "snapWindow_of (bpm_or_default (bpmEstimate st)) subdiv = Num w"
    using assms(1,2) by (simp add: snapWindow_of_def)
  then have "gen_candidates B F subdiv ab st = concat (map (snap_spec grid w F) (onsets st))"
    unfolding gen_candidates_def using cand_loop_eq [OF assms(3)] assms(4) by simp
  then show ?thesis using nearest_grid_nearest [of grid t] by (auto simp: snap_spec_def)
qed

theorem snap_to_grid_witness:
  "(8::int) \<noteq> 0
   \<and> (1 / 8 :: real) = (60 / bpm_or_default (bpmEstimate snap_state)) / (real_of_int 8 / 4) / 2
   \<and> (1 / 8 :: real) < 999
   \<and> gen_candidates (buildBeatGrid snap_externals) (freqToLane snap_externals) 8
        \<lparr>channelData0 = [], buf_sampleRate = 44100, buf_duration = 1\<rparr> snap_state
      = [(Some 0.5, 3), (Some 0.5, 1)]"
proof -
  have a: "(1 / 8 :: real) = (60 / bpm_or_default (bpmEstimate snap_state)) / (real_of_int 8 / 4) / 2"
    by (simp add: snap_state_def initial_def bpm_or_default_def)
  have g: "[0, 1 / 2, 1] = buildBeatGrid snap_externals (bpm_or_default (bpmEstimate snap_state)) 8
       (buf_duration \<lparr>channelData0 = [], buf_sampleRate = 44100, buf_duration = 1\<rparr>)"
    by (simp add: snap_state_def initial_def bpm_or_default_def snap_externals_def)
  have "gen_candidates (buildBeatGrid snap_externals) (freqToLane snap_externals) 8
        \<lparr>channelData0 = [], buf_sampleRate = 44100, buf_duration = 1\<rparr> snap_state
      = concat (map (snap_spec [0, 1 / 2, 1] (1 / 8) (freqToLane snap_externals)) (onsets snap_state))"
    using snap_to_grid [where subdiv = 8 and w = "1 / 8" and st = snap_state and grid = "[0, 1 / 2, 1]"
        and B = "buildBeatGrid snap_externals" and F = "freqToLane snap_externals"
        and ab = "\<lparr>channelData0 = [], buf_sampleRate = 44100, buf_duration = 1\<rparr>"] a g
    by simp
  also have "\<dots> = [(Some 0.5, 3), (Some 0.5, 1)]"
    by (simp add: snap_spec_def nearest_grid_def snap_state_def initial_def snap_externals_def)
  finally show ?thesis using a by simp
qed

section \<open>The tempo fallback\<close>

lemma snap_spec_times: "c \<in> set (snap_spec grid w f t) \<Longrightarrow> fst c \<noteq> None"
  by (auto simp: snap_spec_def split: if_splits)

lemma merge_loop_ok:
  "(\<forall>c\<in>set cs. fst c \<noteq> None) \<Longrightarrow> \<exists>m. merge_loop cs merged = Inr m"
  by (induction cs merged rule: merge_loop.induct) auto

lemma fallback_window:
  assumes "subdiv \<noteq> 0"
  shows "snapWindow_of 120 subdiv = Num (1 / real_of_int subdiv)" "1 / real_of_int subdiv < 999"
proof -
  show "snapWindow_of 120 subdiv = Num (1 / real_of_int subdiv)"
    using assms by (simp add: snapWindow_of_def)
  have "1 / real_of_int subdiv \<le> 1"
  proof (cases "0 < subdiv")
    case True
    then have "1 \<le> real_of_int subdiv" by simp
    then show ?thesis by simp
  next
    case False
    with assms have "real_of_int subdiv < 0" by simp
    then have "1 / real_of_int subdiv < 0" by simp
    then show ?thesis by simp
  qed
  then show "1 / real_of_int subdiv < 999" by simp
qed

text \<open>
  C8. When there is no tempo estimate (\<open>null\<close>, NaN or 0), note generation uses 120
  for the beat grid and for the snap window, and with a track loaded and a nonzero
  subdivision it ends with a chart, not with an error.
\<close>

theorem tempo_fallback:
  assumes "bpmEstimate st = None \<or> bpmEstimate st = Some 0"
  shows "bpm_or_default (bpmEstimate st) = 120
     \<and> genNotes B F subdiv st =
         (case audioBuffer st of
            None \<Rightarrow> Inl NotLoaded
          | Some ab \<Rightarrow>
              (case merge_loop (cand_loop F (B 120 subdiv (buf_duration ab))
                       (snapWindow_of 120 subdiv) (onsets st) []) [] of
                 Inl e \<Rightarrow> Inl e
               | Inr merged \<Rightarrow> Inr (st\<lparr>notes_arr := sort_notes merged\<rparr>)))
     \<and> (subdiv \<noteq> 0 \<longrightarrow> snapWindow_of 120 subdiv = Num ((60 / 120) / (real_of_int subdiv / 4) / 2))
     \<and> (audioBuffer st \<noteq> None \<and> subdiv \<noteq> 0 \<longrightarrow> (\<exists>st'. genNotes B F subdiv st = Inr st'))"
proof -
  have d: "bpm_or_default (bpmEstimate st) = 120"
    using assms by (auto simp: bpm_or_default_def)
  have g: "genNotes B F subdiv st =
         (case audioBuffer st of
            None \<Rightarrow> Inl NotLoaded
          | Some ab \<Rightarrow>
              (case merge_loop (cand_loop F (B 120 subdiv (buf_duration ab))
                       (snapWindow_of 120 subdiv) (onsets st) []) [] of
                 Inl e \<Rightarrow> Inl e
               | Inr merged \<Rightarrow> Inr (st\<lparr>notes_arr := sort_notes merged\<rparr>)))"
    by (simp add: genNotes_def gen_candidates_def d split: option.splits)
  have w: "snapWindow_of 120 subdiv = Num ((60 / 120) / (real_of_int subdiv / 4) / 2)" if "subdiv \<noteq> 0"
    using that by (simp add: snapWindow_of_def)
  have ok: "\<exists>st'. genNotes B F subdiv st = Inr st'" if ab: "audioBuffer st \<noteq> None" and sd: "subdiv \<noteq> 0"
  proof -
    from ab obtain ab' where ab': "audioBuffer st = Some ab'" by auto
    let ?cs = "cand_loop F (B 120 subdiv (buf_duration ab')) (snapWindow_of 120 subdiv) (onsets st) []"
    have "?cs = concat (map (snap_spec (B 120 subdiv (buf_duration ab')) (1 / real_of_int subdiv) F) (onsets st))"
      unfolding fallback_window(1) [OF sd] using cand_loop_eq [OF fallback_window(2) [OF sd]] by simp
    then have "\<forall>c\<in>set ?cs. fst c \<noteq> None"
      by (auto dest: snap_spec_times)
    from merge_loop_ok [OF this, of "[]"] obtain m where "merge_loop ?cs [] = Inr m" by blast
    then show ?thesis unfolding g ab' by simp
  qed
  show ?thesis using d g w ok by blast
qed

theorem tempo_fallback_witness:
  "(bpmEstimate snap_state = None \<or> bpmEstimate snap_state = Some 0)
   \<and> audioBuffer snap_state \<noteq> None \<and> (4::int) \<noteq> 0
   \<and> bpm_or_default (bpmEstimate snap_state) = 120
   \<and> snapWindow_of 120 4 = Num (1 / 4)
   \<and> (\<exists>st'. genNotes (buildBeatGrid snap_externals) (freqToLane snap_externals) 4 snap_state = Inr st')"
proof -
  have a: "bpmEstimate snap_state = None \<or> bpmEstimate snap_state = Some 0"
    by (simp add: snap_state_def initial_def)
  have b: "audioBuffer snap_state \<noteq> None"
    by (simp add: snap_state_def initial_def)
  note t = tempo_fallback [OF a, where subdiv = 4 and B = "buildBeatGrid snap_externals"
      and F = "freqToLane snap_externals"]
  have c: "bpm_or_default (bpmEstimate snap_state) = 120"
    using t by (rule conjunct1)
  have d: "snapWindow_of 120 4 = Num (1 / 4)"
    using t [THEN conjunct2, THEN conjunct2, THEN conjunct1] by simp
  have e: "\<exists>st'. genNotes (buildBeatGrid snap_externals) (freqToLane snap_externals) 4 snap_state = Inr st'"
    using t [THEN conjunct2, THEN conjunct2, THEN conjunct2] b by simp
  show ?thesis using a b c d e by simp
qed

section \<open>The generated chart\<close>

lemma obj_set_keys:
  "map fst (obj_set k v al) = (if k \<in> set (map fst al) then map fst al else map fst al @ [k])"
  by (induction k v al rule: obj_set.induct) auto

lemma obj_set_set: "set (obj_set k v al) \<subseteq> insert (k, v) (set al)"
  by (induction k v al rule: obj_set.induct) auto

lemma keyed_obj_set: "keyed al \<Longrightarrow> keyed (obj_set (key_of v) v al)"
  unfolding keyed_def using obj_set_set [of "key_of v" v al]
  by (auto simp: obj_set_keys)

lemma merge_loop_keyed: "merge_loop cs merged = Inr m \<Longrightarrow> keyed merged \<Longrightarrow> keyed m"
proof (induction cs merged rule: merge_loop.induct)
  case (1 merged)
  then show ?case by simp
next
  case (2 l cs merged)
  then show ?case by simp
next
  case (3 t l cs merged)
  from "3.prems"(2) have "keyed (obj_set (key_of \<lparr>time = t, lane = l\<rparr>) \<lparr>time = t, lane = l\<rparr> merged)"
    by (rule keyed_obj_set)
  with "3.IH" "3.prems"(1) show ?case by simp
qed

lemma keyed_values: "keyed al \<Longrightarrow> distinct (map key_of (map snd al))"
proof -
  assume k: "keyed al"
  have "\<forall>x\<in>set al. key_of (snd x) = fst x"
    using k unfolding keyed_def by auto
  then have "map (\<lambda>x. key_of (snd x)) al = map fst al"
    by (simp only: map_eq_conv)
  then have "map key_of (map snd al) = map fst al"
    by (simp add: comp_def)
  with k show ?thesis by (simp only: keyed_def)
qed

lemma distinct_time_lane:
  "distinct (map key_of vs) \<Longrightarrow> distinct (map (\<lambda>n. (time n, lane n)) vs)"
proof (induction vs)
  case Nil
  then show ?case by simp
next
  case (Cons v vs)
  have "(time v, lane v) \<notin> (\<lambda>n. (time n, lane n)) ` set vs"
  proof
    assume "(time v, lane v) \<in> (\<lambda>n. (time n, lane n)) ` set vs"
    then obtain u where "u \<in> set vs" "time u = time v" "lane u = lane v" by auto
    then have "key_of u = key_of v" "u \<in> set vs" by (simp_all add: key_of_def)
    then have "key_of v \<in> key_of ` set vs" by (metis imageI)
    with Cons.prems show False by simp
  qed
  with Cons show ?case by simp
qed

lemma sort_notes_props:
  assumes "keyed merged"
  shows "distinct (map (\<lambda>n. (time n, lane n)) (sort_notes merged))"
    and "sorted (map time (sort_notes merged))"
    and "filter (\<lambda>n. time n = t) (sort_notes merged) = filter (\<lambda>n. time n = t) (map snd merged)"
proof -
  let ?p = "\<lambda>n. (time n, lane n)"
  have "mset (map ?p (sort_notes merged)) = mset (map ?p (map snd merged))"
    by (simp only: sort_notes_def mset_map mset_sort)
  then have "distinct (map ?p (sort_notes merged)) \<longleftrightarrow> distinct (map ?p (map snd merged))"
    by (rule mset_eq_imp_distinct_iff)
  with distinct_time_lane [OF keyed_values [OF assms]]
  show "distinct (map ?p (sort_notes merged))" by simp
  show "sorted (map time (sort_notes merged))" by (simp add: sort_notes_def)
  show "filter (\<lambda>n. time n = t) (sort_notes merged) = filter (\<lambda>n. time n = t) (map snd merged)"
    unfolding sort_notes_def by (rule sort_key_stable)
qed

text \<open>
  C2 (amended). Every chart that note generation stores has no two notes with the
  same \<open>(time, lane)\<close> and is sorted ascending by time; notes of equal time are not
  ordered by lane but stay in the order in which their keys entered the merged
  object.
\<close>

theorem chart_well_formed:
  "(merge_loop cs [] = Inr merged \<longrightarrow>
      distinct (map (\<lambda>n. (time n, lane n)) (sort_notes merged))
      \<and> sorted (map time (sort_notes merged))
      \<and> (\<forall>t. filter (\<lambda>n. time n = t) (sort_notes merged) = filter (\<lambda>n. time n = t) (map snd merged)))
   \<and> (genNotes B F subdiv st = Inr st' \<longrightarrow>
      distinct (map (\<lambda>n. (time n, lane n)) (notes_arr st')) \<and> sorted (map time (notes_arr st')))"
proof -
  have e: "keyed []" by (simp add: keyed_def)
  have k: "keyed m" if "merge_loop cs [] = Inr m" for cs m
    using merge_loop_keyed [OF that e] .
  have g: "\<exists>cs m. merge_loop cs [] = Inr m \<and> notes_arr st' = sort_notes m"
    if "genNotes B F subdiv st = Inr st'"
    using that by (auto simp: genNotes_def split: option.splits sum.splits) blast
  have p1: "distinct (map (\<lambda>n. (time n, lane n)) (sort_notes merged))
      \<and> sorted (map time (sort_notes merged))
      \<and> (\<forall>t. filter (\<lambda>n. time n = t) (sort_notes merged) = filter (\<lambda>n. time n = t) (map snd merged))"
    if "merge_loop cs [] = Inr merged"
    using sort_notes_props [OF k [OF that]] by blast
  have p2: "distinct (map (\<lambda>n. (time n, lane n)) (notes_arr st')) \<and> sorted (map time (notes_arr st'))"
    if "genNotes B F subdiv st = Inr st'"
  proof -
    from g [OF that] obtain cs' m where m: "merge_loop cs' [] = Inr m" "notes_arr st' = sort_notes m"
      by blast
    from sort_notes_props(1,2) [OF k [OF m(1)]] show ?thesis unfolding m(2) by blast
  qed
  show ?thesis using p1 p2 by blast
qed

lemma snap_chart:
  "genNotes (buildBeatGrid snap_externals) (freqToLane snap_externals) 4 snap_state =
     Inr (snap_state\<lparr>notes_arr := [\<lparr>time = 0.5, lane = 3\<rparr>, \<lparr>time = 0.5, lane = 1\<rparr>, \<lparr>time = 1, lane = 1\<rparr>]\<rparr>)"
  by (simp add: genNotes_def gen_candidates_def snap_state_def initial_def snap_externals_def
      bpm_or_default_def snapWindow_of_def nearest_scan_def key_of_def toFixed3_def sort_notes_def)

theorem chart_well_formed_witness:
  "genNotes (buildBeatGrid snap_externals) (freqToLane snap_externals) 4 snap_state =
     Inr (snap_state\<lparr>notes_arr := [\<lparr>time = 0.5, lane = 3\<rparr>, \<lparr>time = 0.5, lane = 1\<rparr>, \<lparr>time = 1, lane = 1\<rparr>]\<rparr>)
   \<and> distinct (map (\<lambda>n. (time n, lane n)) [\<lparr>time = 0.5, lane = 3\<rparr>, \<lparr>time = 0.5, lane = 1\<rparr>, \<lparr>time = 1, lane = 1\<rparr>])
   \<and> sorted (map time [\<lparr>time = 0.5, lane = 3\<rparr>, \<lparr>time = 0.5, lane = 1\<rparr>, \<lparr>time = 1, lane = (1::nat)\<rparr>])
   \<and> merge_loop [(Some 1, 2), (Some 0, 1)] [] =
        Inr [(key_of \<lparr>time = 1, lane = 2\<rparr>, \<lparr>time = 1, lane = 2\<rparr>),
             (key_of \<lparr>time = 0, lane = 1\<rparr>, \<lparr>time = 0, lane = 1\<rparr>)]
   \<and> sorted (map time (sort_notes [(key_of \<lparr>time = 1, lane = 2\<rparr>, \<lparr>time = 1, lane = 2\<rparr>),
             (key_of \<lparr>time = 0, lane = 1\<rparr>, \<lparr>time = 0, lane = 1\<rparr>)]))"
proof -
  have m: "merge_loop [(Some 1, 2), (Some 0, 1)] [] =
        Inr [(key_of \<lparr>time = 1, lane = 2\<rparr>, \<lparr>time = 1, lane = 2\<rparr>),
             (key_of \<lparr>time = 0, lane = 1\<rparr>, \<lparr>time = 0, lane = 1\<rparr>)]"
    by (simp add: key_of_def toFixed3_def)
  note t = chart_well_formed [where cs = "[(Some 1, 2), (Some 0, 1)]"
      and merged = "[(key_of \<lparr>time = 1, lane = 2\<rparr>, \<lparr>time = 1, lane = 2\<rparr>),
             (key_of \<lparr>time = 0, lane = 1\<rparr>, \<lparr>time = 0, lane = 1\<rparr>)]"
      and B = "buildBeatGrid snap_externals" and F = "freqToLane snap_externals" and subdiv = 4
      and st = snap_state
      and st' = "snap_state\<lparr>notes_arr := [\<lparr>time = 0.5, lane = 3\<rparr>, \<lparr>time = 0.5, lane = 1\<rparr>, \<lparr>time = 1, lane = 1\<rparr>]\<rparr>"]
  from t m snap_chart show ?thesis by simp
qed

text \<open>
  C2 as stated fails: onsets at 0.4 s and 0.6 s snap to the beat at 0.5 s with lanes
  3 and 1, and the chart keeps them in that order.
\<close>

theorem lane_order_counterexample:
  "\<not> chart_wf_claimed (notes_arr (handle snap_externals (GenNotes 4) snap_state))"
  by (simp add: snap_chart or_unchanged_def chart_wf_claimed_def)

section \<open>The chart stays sorted\<close>

text \<open>
  The chart is sorted by time in every state that a sequence of events reaches from
  the initial one: note generation sorts it and a hit only removes a note.
\<close>

lemma subseq_sorted_wrt: "subseq xs ys \<Longrightarrow> sorted_wrt P ys \<Longrightarrow> sorted_wrt P xs"
proof (induction xs ys rule: list_emb.induct)
  case (list_emb_Nil ys)
  then show ?case by simp
next
  case (list_emb_Cons xs ys y)
  then show ?case by simp
next
  case (list_emb_Cons2 x y xs ys)
  have "set xs \<subseteq> set ys"
    using list_emb_Cons2.hyps(2) by (auto dest: list_emb_set)
  with list_emb_Cons2 show ?case by auto
qed

lemma handle_sorted:
  assumes "sorted (map time (notes_arr st))"
  shows "sorted (map time (notes_arr (handle ext e st)))"
proof (cases "\<exists>subdiv. e = GenNotes subdiv")
  case True
  then obtain subdiv where e: "e = GenNotes subdiv" by blast
  show ?thesis
  proof (cases "genNotes (buildBeatGrid ext) (freqToLane ext) subdiv st")
    case (Inl err)
    with assms show ?thesis by (simp add: e or_unchanged_def)
  next
    case (Inr st')
    then have "\<exists>m. notes_arr st' = sort_notes m"
      by (auto simp: genNotes_def split: option.splits sum.splits)
    then have "sorted (map time (notes_arr st'))" by (auto simp: sort_notes_def)
    with Inr show ?thesis by (simp add: e or_unchanged_def)
  qed
next
  case False
  then have "subseq (notes_arr (handle ext e st)) (notes_arr st)"
    by (intro handle_notes) simp
  moreover have "sorted_wrt (\<lambda>a b. time a \<le> time b) (notes_arr st)"
    using assms by (simp add: sorted_map)
  ultimately have "sorted_wrt (\<lambda>a b. time a \<le> time b) (notes_arr (handle ext e st))"
    by (rule subseq_sorted_wrt)
  then show ?thesis by (simp add: sorted_map)
qed

lemma run_sorted:
  "sorted (map time (notes_arr st)) \<Longrightarrow> sorted (map time (notes_arr (run ext es st)))"
proof (induction es rule: rev_induct)
  case Nil
  then show ?case by (simp add: run_def)
next
  case (snoc e es)
  then show ?case unfolding run_snoc by (simp add: handle_sorted)
qed

lemma reachable_sorted: "sorted (map time (notes_arr (run ext es initial)))"
  by (rule run_sorted) (simp add: initial_def)

end
